theory Spec2Isabelle
  imports Complex_Main "HOL-Library.List_Lexorder" "HOL-Library.Char_ord"
begin

section \<open>The k-ary oracle of oracle\_kary100\_dp.py\<close>

text \<open>
  The embedding follows \<^verbatim>\<open>src/100-kary-oqa-dataset/oracle_dp/oracle_kary100_dp.py\<close>.

  \<^item> The attribute table (a Python dict of dicts of strings) is an association list of
    association lists, read with \<open>map_of\<close>.
  \<^item> A \<^verbatim>\<open>State\<close> wraps a frozenset of object ids: a \<open>string set\<close>.
  \<^item> A Python float is the real number it denotes, and every division, product and sum
    of the two attribute loops rounds its result to double precision (\<open>round_double\<close>).
    \<^verbatim>\<open>float("inf")\<close>, the initial incumbent of the two loops, is \<open>None\<close> in a \<open>real option\<close>.
    \<^verbatim>\<open>math.log2\<close> is taken as the exact logarithm: the claims use only that it is 0 at 1,
    1 at 2 and positive above 1.
  \<^item> The order in which Python iterates over a set of ids is left to the hash table, and
    two equal sets that were built in different ways can be visited in different orders.
    The order decides the order of the groups of a partition, in which their terms are
    added, so it is a parameter of the model: any function from sets to lists
    (\<open>set_iter\<close>). The parameter \<open>it\<close> gives, for every candidate set, the order under which
    \<^verbatim>\<open>_cost\<close> computes the cost of the set; the parameter \<open>sel\<close> gives the order in which
    \<^verbatim>\<open>_best_attribute\<close> visits the set it is given.
  \<^item> Every raise is a value of \<open>error\<close>: the three explicit raises, the \<^verbatim>\<open>KeyError\<close> of a
    failed subscript \<^verbatim>\<open>self.table[obj_id][attr]\<close>, and the \<^verbatim>\<open>ValueError\<close> of
    \<^verbatim>\<open>math.log2(0)\<close>.
  \<^item> \<^verbatim>\<open>lru_cache\<close> memoises \<^verbatim>\<open>_cost\<close> on the value of the state, so the cost of a candidate
    set is computed once and is a function of the set: \<open>cost it orc ids\<close>.
  \<^item> \<^verbatim>\<open>sorted\<close> on Python strings is the lexicographic order on code points, here
    the lexicographic order on \<open>char list\<close>.
\<close>

subsection \<open>Data\<close>

type_synonym row = "(string \<times> string) list"
type_synonym attr_table = "(string \<times> row) list"

datatype error =
    ValueError_empty_table
  | KeyError_unknown_target string
  | ValueError_no_targets
  | KeyError_lookup
  | ValueError_math_domain

record KaryOracle =
  table :: attr_table
  object_ids :: "string list"
  attributes :: "string list"

text \<open>\<^verbatim>\<open>KaryOracle.__init__\<close>: the attribute names are those of the first row of the table.\<close>

definition KaryOracle_init :: "attr_table \<Rightarrow> error + KaryOracle" where
  "KaryOracle_init t =
     (if t = [] then Inl ValueError_empty_table
      else Inr \<lparr>table = t, object_ids = sort (map fst t),
                attributes = sort (map fst (snd (hd t)))\<rparr>)"

text \<open>The subscript \<^verbatim>\<open>self.table[obj_id][attr]\<close>.\<close>

definition table_get :: "KaryOracle \<Rightarrow> string \<Rightarrow> string \<Rightarrow> error + string" where
  "table_get orc obj_id attr =
     (case map_of (table orc) obj_id of
        None \<Rightarrow> Inl KeyError_lookup
      | Some r \<Rightarrow> (case map_of r attr of None \<Rightarrow> Inl KeyError_lookup | Some v \<Rightarrow> Inr v))"

subsection \<open>Double precision arithmetic\<close>

text \<open>
  A Python float is an IEEE 754 binary64 number. The floats of this program are finite, so
  a float is modelled as the real number it denotes, and an arithmetic operation rounds
  its exact result to the nearest number with a significand of 53 bits, a tie going to the
  even significand. The range of the exponent is not bounded in the model: the program
  computes with quotients of counts and with costs, far from overflow and underflow.
\<close>

definition round_half_even :: "real \<Rightarrow> int" where
  "round_half_even x =
     (let f = \<lfloor>x\<rfloor>; d = x - of_int f
      in if d < 1 / 2 then f else if 1 / 2 < d then f + 1 else if even f then f else f + 1)"

text \<open>
  A positive number is scaled by powers of 2 into the interval from \<open>2 ^ 52\<close> to \<open>2 ^ 53\<close>,
  rounded there to an integer, and scaled back.
\<close>

function round_pos :: "real \<Rightarrow> real" where
  "round_pos x =
     (if x \<le> 0 then 0
      else if x < 2 ^ 52 then round_pos (2 * x) / 2
      else if 2 ^ 53 \<le> x then 2 * round_pos (x / 2)
      else of_int (round_half_even x))"
  by pat_completeness auto

termination round_pos
proof (relation "measure (\<lambda>x. if x \<le> 0 then 0
                    else if x < 2 ^ 52 then 1 + nat \<lceil>2 ^ 52 / x\<rceil>
                    else if 2 ^ 53 \<le> x then 1 + nat \<lfloor>x\<rfloor> else 0)")
  show "wf (measure (\<lambda>x::real. if x \<le> 0 then 0
                    else if x < 2 ^ 52 then 1 + nat \<lceil>2 ^ 52 / x\<rceil>
                    else if 2 ^ 53 \<le> x then 1 + nat \<lfloor>x\<rfloor> else 0))"
    by simp
next
  fix x :: real assume "\<not> x \<le> 0" and lt: "x < 2 ^ 52"
  then have pos: "0 < x" by simp
  have "\<lceil>2 ^ 52 / (2 * x)\<rceil> < \<lceil>2 ^ 52 / x\<rceil>" if "2 * x < 2 ^ 52"
  proof -
    let ?y = "2 ^ 52 / x"
    have y: "2 < ?y" using that pos by (simp add: less_divide_eq)
    have "\<lceil>?y / 2\<rceil> \<le> \<lceil>(of_int \<lceil>?y\<rceil> :: real) / 2\<rceil>"
      by (intro ceiling_mono divide_right_mono) simp_all
    also have "\<dots> \<le> (\<lceil>?y\<rceil> + 1) div 2" by linarith
    also have "\<dots> < \<lceil>?y\<rceil>"
    proof -
      have "2 < \<lceil>?y\<rceil>" using y by linarith
      then show ?thesis by linarith
    qed
    finally show ?thesis by (simp add: field_simps)
  qed
  moreover have "0 < \<lceil>2 ^ 52 / x\<rceil>" using pos by simp
  ultimately show "(2 * x, x) \<in> measure (\<lambda>x. if x \<le> 0 then 0
                    else if x < 2 ^ 52 then 1 + nat \<lceil>2 ^ 52 / x\<rceil>
                    else if 2 ^ 53 \<le> x then 1 + nat \<lfloor>x\<rfloor> else 0)"
    using pos lt by auto
next
  fix x :: real assume "\<not> x \<le> 0" and "\<not> x < 2 ^ 52" and ge: "2 ^ 53 \<le> x"
  have two: "2 \<le> x" using ge by simp
  then have "x / 2 < of_int \<lfloor>x\<rfloor>" by linarith
  then have "\<lfloor>x / 2\<rfloor> < \<lfloor>x\<rfloor>" by (simp add: floor_less_iff)
  moreover have "0 < \<lfloor>x\<rfloor>" using two by linarith
  ultimately show "(x / 2, x) \<in> measure (\<lambda>x. if x \<le> 0 then 0
                    else if x < 2 ^ 52 then 1 + nat \<lceil>2 ^ 52 / x\<rceil>
                    else if 2 ^ 53 \<le> x then 1 + nat \<lfloor>x\<rfloor> else 0)"
    using ge by auto
qed

declare round_pos.simps [simp del]

definition round_double :: "real \<Rightarrow> real" where
  "round_double x = (if x < 0 then - round_pos (- x) else round_pos x)"

text \<open>The operations \<^verbatim>\<open>+\<close>, \<^verbatim>\<open>*\<close> and \<^verbatim>\<open>/\<close> on floats, and on two ints for \<^verbatim>\<open>/\<close>.\<close>

definition fadd :: "real \<Rightarrow> real \<Rightarrow> real" where
  "fadd x y = round_double (x + y)"

definition fmul :: "real \<Rightarrow> real \<Rightarrow> real" where
  "fmul x y = round_double (x * y)"

definition fdiv :: "real \<Rightarrow> real \<Rightarrow> real" where
  "fdiv x y = round_double (x / y)"

text \<open>\<^verbatim>\<open>expected < best_cost\<close>, where \<open>None\<close> is \<^verbatim>\<open>float("inf")\<close>.\<close>

definition float_lt :: "real \<Rightarrow> real option \<Rightarrow> bool" where
  "float_lt x best = (case best of None \<Rightarrow> True | Some b \<Rightarrow> x < b)"

subsection \<open>Iteration over a set of ids\<close>

text \<open>
  An iteration gives, for a set of ids, the list in which a \<^verbatim>\<open>for\<close> loop visits it. Where
  the function does not enumerate the set, the sorted list of the set is taken, so that
  every function is an iteration order.
\<close>

type_synonym iteration = "string set \<Rightarrow> string list"

definition set_iter :: "iteration \<Rightarrow> string set \<Rightarrow> string list" where
  "set_iter it ids =
     (if set (it ids) = ids \<and> distinct (it ids) then it ids else sorted_list_of_set ids)"

text \<open>The keys of a dict in the order of their insertion: each at its first position.\<close>

definition first_occurrences :: "'a list \<Rightarrow> 'a list" where
  "first_occurrences xs = rev (remdups (rev xs))"

text \<open>
  The dict \<^verbatim>\<open>partitions\<close> that both attribute loops build: its items in the order of their
  insertion, each a pair of a value and the set of the candidates holding that value.
\<close>

definition partitions ::
  "iteration \<Rightarrow> KaryOracle \<Rightarrow> string set \<Rightarrow> string \<Rightarrow> error + (string \<times> string set) list" where
  "partitions it orc ids attr =
     (if \<exists>obj_id\<in>ids. isl (table_get orc obj_id attr) then Inl KeyError_lookup
      else Inr (map (\<lambda>val. (val, {obj_id \<in> ids. table_get orc obj_id attr = Inr val}))
                  (first_occurrences
                     (map (\<lambda>obj_id. projr (table_get orc obj_id attr)) (set_iter it ids)))))"

subsection \<open>The dynamic program\<close>

text \<open>
  \<^verbatim>\<open>KaryOracle._cost\<close>. The terms of the groups are added to \<^verbatim>\<open>expected\<close> one after the
  other. An exception of a recursive call leaves the loop.
\<close>

function cost :: "iteration \<Rightarrow> KaryOracle \<Rightarrow> string set \<Rightarrow> error + real" where
  "cost it orc ids =
     (let n = card ids in
      if n \<le> 1 then Inr 0
      else
        case fold (\<lambda>attr acc.
               case acc of
                 Inl e \<Rightarrow> Inl e
               | Inr best_cost \<Rightarrow>
                   (case partitions it orc ids attr of
                      Inl e \<Rightarrow> Inl e
                    | Inr parts \<Rightarrow>
                        if length parts \<le> 1 then Inr best_cost
                        else if \<exists>p\<in>set parts. isl (cost it orc (snd p))
                        then Inl KeyError_lookup
                        else
                          let expected =
                                foldl (\<lambda>expected p.
                                         fadd expected
                                           (fmul (fdiv (real (card (snd p))) (real n))
                                              (projr (cost it orc (snd p)))))
                                  1 parts
                          in if float_lt expected best_cost then Inr (Some expected)
                             else Inr best_cost))
             (attributes orc) (Inr None)
        of
          Inl e \<Rightarrow> Inl e
        | Inr None \<Rightarrow> Inr 0
        | Inr (Some c) \<Rightarrow> Inr c)"
  by pat_completeness auto

lemma set_iter_enumerates:
  assumes "finite ids"
  shows "set (set_iter it ids) = ids" and "distinct (set_iter it ids)"
  using assms by (auto simp: set_iter_def)

lemma first_occurrences_set [simp]: "set (first_occurrences xs) = set xs"
  by (simp add: first_occurrences_def)

lemma first_occurrences_distinct [simp]: "distinct (first_occurrences xs)"
  by (simp add: first_occurrences_def)

text \<open>
  The items of a partition, as a list without repetition of the set of pairs of a value
  held in the candidate set and the candidates holding it.
\<close>

lemma partitions_items:
  assumes "partitions it orc ids attr = Inr parts" and "finite ids"
  shows "\<forall>obj_id\<in>ids. table_get orc obj_id attr = Inr (projr (table_get orc obj_id attr))"
    and "set parts = (\<lambda>val. (val, {obj_id \<in> ids. table_get orc obj_id attr = Inr val}))
                  ` ((\<lambda>obj_id. projr (table_get orc obj_id attr)) ` ids)"
    and "distinct parts"
proof -
  let ?g = "\<lambda>obj_id. table_get orc obj_id attr"
  let ?f = "\<lambda>val. (val, {obj_id \<in> ids. ?g obj_id = Inr val})"
  let ?vs = "first_occurrences (map (\<lambda>obj_id. projr (?g obj_id)) (set_iter it ids))"
  have "\<forall>obj_id\<in>ids. \<not> isl (?g obj_id)"
    using assms(1) by (auto simp: partitions_def split: if_splits)
  then show "\<forall>obj_id\<in>ids. ?g obj_id = Inr (projr (?g obj_id))" by simp
  have parts: "parts = map ?f ?vs"
    using assms(1) by (auto simp: partitions_def split: if_splits)
  show "set parts = ?f ` ((\<lambda>obj_id. projr (?g obj_id)) ` ids)"
    unfolding parts by (simp add: set_iter_enumerates(1)[OF assms(2)])
  have "inj_on ?f (set ?vs)" by (rule inj_onI) simp
  then show "distinct parts" unfolding parts by (simp add: distinct_map)
qed

lemma partitions_part_smaller:
  assumes "partitions it orc ids attr = Inr parts" and "\<not> length parts \<le> 1"
    and "\<not> card ids \<le> 1" and "p \<in> set parts"
  shows "card (snd p) < card ids"
proof -
  let ?g = "\<lambda>obj_id. table_get orc obj_id attr"
  have fin: "finite ids" using assms(3) by (cases "finite ids") auto
  note it = partitions_items[OF assms(1) fin]
  have "card (set parts) = length parts" using it(3) by (rule distinct_card)
  with assms(2) have big: "\<not> card (set parts) \<le> 1" by simp
  obtain q where q: "q \<in> set parts" "q \<noteq> p"
  proof -
    have "\<not> set parts \<subseteq> {p}"
    proof
      assume "set parts \<subseteq> {p}"
      then have "card (set parts) \<le> card {p}" by (intro card_mono) auto
      with big show False by simp
    qed
    then show ?thesis using that by auto
  qed
  from q(1) it(2) obtain o' where o': "o' \<in> ids"
    "q = (projr (?g o'), {obj_id \<in> ids. ?g obj_id = Inr (projr (?g o'))})"
    by auto
  from assms(4) it(2) obtain v where v: "p = (v, {obj_id \<in> ids. ?g obj_id = Inr v})"
    by auto
  have "projr (?g o') \<noteq> v" using q(2) o'(2) v by auto
  moreover have "?g o' = Inr (projr (?g o'))" using it(1) o'(1) by blast
  ultimately have "o' \<notin> snd p" using v by auto
  moreover have "snd p \<subseteq> ids" using v by auto
  ultimately have "snd p \<subset> ids" using o'(1) by auto
  then show ?thesis using fin by (rule psubset_card_mono[rotated])
qed

termination cost
  apply (relation "measure (\<lambda>(it, orc, ids). card ids)")
    apply simp
   apply (simp add: partitions_part_smaller)
  apply (simp add: partitions_part_smaller)
  done

declare cost.simps [simp del]

text \<open>
  \<^verbatim>\<open>KaryOracle._best_attribute\<close>: the same loop, carrying the attribute of the incumbent. It
  visits its own set in the order \<open>sel\<close> and calls \<^verbatim>\<open>_cost\<close> on the groups.
\<close>

definition best_attribute :: "iteration \<Rightarrow> iteration \<Rightarrow> KaryOracle \<Rightarrow> string set \<Rightarrow> error + string option" where
  "best_attribute sel it orc ids =
     (let n = card ids in
      if n \<le> 1 then Inr None
      else
        case fold (\<lambda>attr acc.
               case acc of
                 Inl e \<Rightarrow> Inl e
               | Inr (best_cost, best_attr) \<Rightarrow>
                   (case partitions sel orc ids attr of
                      Inl e \<Rightarrow> Inl e
                    | Inr parts \<Rightarrow>
                        if length parts \<le> 1 then Inr (best_cost, best_attr)
                        else if \<exists>p\<in>set parts. isl (cost it orc (snd p))
                        then Inl KeyError_lookup
                        else
                          let expected =
                                foldl (\<lambda>expected p.
                                         fadd expected
                                           (fmul (fdiv (real (card (snd p))) (real n))
                                              (projr (cost it orc (snd p)))))
                                  1 parts
                          in if float_lt expected best_cost then Inr (Some expected, Some attr)
                             else Inr (best_cost, best_attr)))
             (attributes orc) (Inr (None, None))
        of
          Inl e \<Rightarrow> Inl e
        | Inr (best_cost, best_attr) \<Rightarrow> Inr best_attr)"

subsection \<open>Trajectories\<close>

text \<open>\<^verbatim>\<open>math.log2\<close> of a count; it raises at 0.\<close>

definition log2 :: "nat \<Rightarrow> error + real" where
  "log2 k = (if k = 0 then Inl ValueError_math_domain else Inr (log 2 (real k)))"

text \<open>
  The body of the loop of \<^verbatim>\<open>trajectory_for_target\<close>, on the pair of \<^verbatim>\<open>current_ids\<close> and
  \<^verbatim>\<open>entropies\<close>, and the loop itself, run a given number of times.
\<close>

definition trajectory_step ::
  "iteration \<Rightarrow> iteration \<Rightarrow> KaryOracle \<Rightarrow> string \<Rightarrow> string set \<times> real list \<Rightarrow>
     error + string set \<times> real list" where
  "trajectory_step sel it orc target_id st =
     (case st of (current_ids, entropies) \<Rightarrow>
        if card current_ids \<le> 1 then Inr (current_ids, entropies @ [0])
        else
          case best_attribute sel it orc current_ids of
            Inl e \<Rightarrow> Inl e
          | Inr None \<Rightarrow> Inr (current_ids, entropies @ [0])
          | Inr (Some attr) \<Rightarrow>
              (case table_get orc target_id attr of
                 Inl e \<Rightarrow> Inl e
               | Inr target_value \<Rightarrow>
                   if \<exists>obj_id\<in>current_ids. isl (table_get orc obj_id attr)
                   then Inl KeyError_lookup
                   else
                     let new_ids = {obj_id \<in> current_ids.
                                      table_get orc obj_id attr = Inr target_value}
                     in (case log2 (card new_ids) of
                           Inl e \<Rightarrow> Inl e
                         | Inr h \<Rightarrow> Inr (new_ids, entropies @ [h]))))"

fun trajectory_loop ::
  "iteration \<Rightarrow> iteration \<Rightarrow> KaryOracle \<Rightarrow> string \<Rightarrow> nat \<Rightarrow> string set \<times> real list \<Rightarrow>
     error + string set \<times> real list" where
  "trajectory_loop sel it orc target_id 0 st = Inr st"
| "trajectory_loop sel it orc target_id (Suc k) st =
     (case trajectory_step sel it orc target_id st of
        Inl e \<Rightarrow> Inl e
      | Inr st' \<Rightarrow> trajectory_loop sel it orc target_id k st')"

text \<open>\<^verbatim>\<open>range(max_steps)\<close> is empty for a negative \<^verbatim>\<open>max_steps\<close>.\<close>

definition trajectory_for_target ::
  "iteration \<Rightarrow> iteration \<Rightarrow> KaryOracle \<Rightarrow> string \<Rightarrow> int \<Rightarrow> error + real list" where
  "trajectory_for_target sel it orc target_id max_steps =
     (if map_of (table orc) target_id = None then Inl (KeyError_unknown_target target_id)
      else
        case trajectory_loop sel it orc target_id (nat max_steps) (set (object_ids orc), []) of
          Inl e \<Rightarrow> Inl e
        | Inr (current_ids, entropies) \<Rightarrow> Inr entropies)"

text \<open>The list comprehension of \<^verbatim>\<open>mean_trajectory\<close> stops at the first target that raises.\<close>

fun trajectories ::
  "iteration \<Rightarrow> iteration \<Rightarrow> KaryOracle \<Rightarrow> string list \<Rightarrow> int \<Rightarrow> error + real list list" where
  "trajectories sel it orc [] max_steps = Inr []"
| "trajectories sel it orc (obj_id # target_ids) max_steps =
     (case trajectory_for_target sel it orc obj_id max_steps of
        Inl e \<Rightarrow> Inl e
      | Inr traj \<Rightarrow>
          (case trajectories sel it orc target_ids max_steps of
             Inl e \<Rightarrow> Inl e
           | Inr trajs \<Rightarrow> Inr (traj # trajs)))"

text \<open>\<^verbatim>\<open>sum\<close> adds the entries to the int 0 one after the other (CPython up to 3.11).\<close>

definition mean_trajectory ::
  "iteration \<Rightarrow> iteration \<Rightarrow> KaryOracle \<Rightarrow> string list \<Rightarrow> int \<Rightarrow> error + real list" where
  "mean_trajectory sel it orc target_ids max_steps =
     (case trajectories sel it orc target_ids max_steps of
        Inl e \<Rightarrow> Inl e
      | Inr trajs \<Rightarrow>
          let num_targets = length trajs in
          if num_targets = 0 then Inl ValueError_no_targets
          else Inr (map (\<lambda>t. fdiv (foldl fadd 0 (map (\<lambda>traj. traj ! t) trajs))
                                 (real num_targets))
                      [0..<nat max_steps]))"

subsection \<open>Well-formed tables, eligible attributes and expected costs\<close>

text \<open>
  The invariant of the data model that the class docstring assumes: every object has the
  same attribute keys (those of the first row).
\<close>

definition uniform_table :: "attr_table \<Rightarrow> bool" where
  "uniform_table t = (\<forall>r\<in>set (map snd t). set (map fst r) = set (map fst (snd (hd t))))"

text \<open>
  An attribute is eligible at a candidate set when its dict \<^verbatim>\<open>partitions\<close> has at least
  two keys, that is when the loop does not skip it with \<^verbatim>\<open>continue\<close>.
\<close>

definition eligible :: "iteration \<Rightarrow> KaryOracle \<Rightarrow> string set \<Rightarrow> string \<Rightarrow> bool" where
  "eligible it orc ids attr =
     (case partitions it orc ids attr of Inl e \<Rightarrow> False | Inr parts \<Rightarrow> \<not> length parts \<le> 1)"

text \<open>
  The value of \<^verbatim>\<open>expected\<close> for an attribute: 1.0 for the question, to which the loop
  adds, for one group after the other, its share of the candidates times the cost of the
  group, each operation in double precision.
\<close>

definition expected_cost :: "iteration \<Rightarrow> iteration \<Rightarrow> KaryOracle \<Rightarrow> string set \<Rightarrow> string \<Rightarrow> real" where
  "expected_cost sel it orc ids attr =
     foldl (\<lambda>expected p.
              fadd expected
                (fmul (fdiv (real (card (snd p))) (real (card ids)))
                   (projr (cost it orc (snd p)))))
       1 (projr (partitions sel orc ids attr))"

text \<open>No subscript on the candidates of a set and the attributes of the oracle raises.\<close>

definition lookups_ok :: "KaryOracle \<Rightarrow> string set \<Rightarrow> bool" where
  "lookups_ok orc ids =
     (\<forall>obj_id\<in>ids. \<forall>attr\<in>set (attributes orc). \<not> isl (table_get orc obj_id attr))"

text \<open>The bodies of the two attribute loops, named for the proofs.\<close>

definition cost_body ::
  "iteration \<Rightarrow> KaryOracle \<Rightarrow> string set \<Rightarrow> string \<Rightarrow> error + real option \<Rightarrow>
     error + real option" where
  "cost_body it orc ids = (\<lambda>attr acc.
               case acc of
                 Inl e \<Rightarrow> Inl e
               | Inr best_cost \<Rightarrow>
                   (case partitions it orc ids attr of
                      Inl e \<Rightarrow> Inl e
                    | Inr parts \<Rightarrow>
                        if length parts \<le> 1 then Inr best_cost
                        else if \<exists>p\<in>set parts. isl (cost it orc (snd p))
                        then Inl KeyError_lookup
                        else
                          let expected =
                                foldl (\<lambda>expected p.
                                         fadd expected
                                           (fmul (fdiv (real (card (snd p))) (real (card ids)))
                                              (projr (cost it orc (snd p)))))
                                  1 parts
                          in if float_lt expected best_cost then Inr (Some expected)
                             else Inr best_cost))"

lemma cost_unfold:
  "cost it orc ids =
     (if card ids \<le> 1 then Inr 0
      else case fold (cost_body it orc ids) (attributes orc) (Inr None) of
          Inl e \<Rightarrow> Inl e
        | Inr None \<Rightarrow> Inr 0
        | Inr (Some c) \<Rightarrow> Inr c)"
  by (simp add: cost.simps[of it orc ids] cost_body_def Let_def)

definition best_body ::
  "iteration \<Rightarrow> iteration \<Rightarrow> KaryOracle \<Rightarrow> string set \<Rightarrow> string \<Rightarrow>
     error + real option \<times> string option \<Rightarrow> error + real option \<times> string option" where
  "best_body sel it orc ids = (\<lambda>attr acc.
               case acc of
                 Inl e \<Rightarrow> Inl e
               | Inr (best_cost, best_attr) \<Rightarrow>
                   (case partitions sel orc ids attr of
                      Inl e \<Rightarrow> Inl e
                    | Inr parts \<Rightarrow>
                        if length parts \<le> 1 then Inr (best_cost, best_attr)
                        else if \<exists>p\<in>set parts. isl (cost it orc (snd p))
                        then Inl KeyError_lookup
                        else
                          let expected =
                                foldl (\<lambda>expected p.
                                         fadd expected
                                           (fmul (fdiv (real (card (snd p))) (real (card ids)))
                                              (projr (cost it orc (snd p)))))
                                  1 parts
                          in if float_lt expected best_cost then Inr (Some expected, Some attr)
                             else Inr (best_cost, best_attr)))"

lemma best_attribute_unfold:
  "best_attribute sel it orc ids =
     (if card ids \<le> 1 then Inr None
      else case fold (best_body sel it orc ids) (attributes orc) (Inr (None, None)) of
          Inl e \<Rightarrow> Inl e
        | Inr (best_cost, best_attr) \<Rightarrow> Inr best_attr)"
  by (simp add: best_attribute_def best_body_def Let_def)

lemma init_lookups_ok:
  assumes "KaryOracle_init t = Inr orc" "uniform_table t" "ids \<subseteq> set (object_ids orc)"
  shows "lookups_ok orc ids"
proof -
  have t: "t \<noteq> []" "table orc = t" "object_ids orc = sort (map fst t)"
    "attributes orc = sort (map fst (snd (hd t)))"
    using assms(1) by (auto simp: KaryOracle_init_def split: if_splits)
  show ?thesis unfolding lookups_ok_def
  proof (intro ballI)
    fix obj_id attr assume o: "obj_id \<in> ids" and a: "attr \<in> set (attributes orc)"
    from o assms(3) t(3) have "obj_id \<in> fst ` set t" by auto
    then obtain r where r: "map_of t obj_id = Some r"
      by (metis map_of_eq_None_iff not_Some_eq)
    then have "(obj_id, r) \<in> set t" by (rule map_of_SomeD)
    then have "r \<in> set (map snd t)" by force
    with assms(2) have "set (map fst r) = set (map fst (snd (hd t)))"
      unfolding uniform_table_def by blast
    with a t(4) have "attr \<in> fst ` set r" by auto
    then obtain v where "map_of r attr = Some v"
      by (metis map_of_eq_None_iff not_Some_eq)
    with r t(2) show "\<not> isl (table_get orc obj_id attr)"
      by (simp add: table_get_def)
  qed
qed

lemma lookups_ok_subset: "lookups_ok orc ids \<Longrightarrow> sub \<subseteq> ids \<Longrightarrow> lookups_ok orc sub"
  unfolding lookups_ok_def by blast

lemma partitions_Inr:
  assumes "lookups_ok orc ids" "attr \<in> set (attributes orc)"
  shows "\<exists>parts. partitions it orc ids attr = Inr parts"
  using assms unfolding lookups_ok_def partitions_def by auto

lemma part_subset:
  assumes "partitions it orc ids attr = Inr parts" and "finite ids" and "p \<in> set parts"
  shows "snd p \<subseteq> ids" and "snd p \<noteq> {}"
proof -
  let ?g = "\<lambda>obj_id. table_get orc obj_id attr"
  note items = partitions_items[OF assms(1,2)]
  from assms(3) items(2) obtain o' where o': "o' \<in> ids"
     "p = (projr (?g o'), {obj_id \<in> ids. ?g obj_id = Inr (projr (?g o'))})"
    by auto
  show "snd p \<subseteq> ids" using o' by auto
  have "?g o' = Inr (projr (?g o'))" using items(1) o'(1) by blast
  then show "snd p \<noteq> {}" using o' by auto
qed

text \<open>The update of the incumbent cost by one eligible attribute.\<close>

definition upd :: "real \<Rightarrow> real option \<Rightarrow> real option" where
  "upd x best = (if float_lt x best then Some x else best)"

lemma cost_body_pure:
  assumes "partitions it orc ids attr = Inr parts"
    and "eligible it orc ids attr \<Longrightarrow> \<forall>p\<in>set parts. \<not> isl (cost it orc (snd p))"
  shows "cost_body it orc ids attr (Inr b) =
         Inr (if eligible it orc ids attr then upd (expected_cost it it orc ids attr) b else b)"
  using assms by (auto simp: cost_body_def eligible_def expected_cost_def upd_def Let_def)

lemma best_body_pure:
  assumes "partitions sel orc ids attr = Inr parts"
    and "eligible sel orc ids attr \<Longrightarrow> \<forall>p\<in>set parts. \<not> isl (cost it orc (snd p))"
  shows "best_body sel it orc ids attr (Inr (b, ba)) =
         Inr (if eligible sel orc ids attr \<and> float_lt (expected_cost sel it orc ids attr) b
              then (Some (expected_cost sel it orc ids attr), Some attr) else (b, ba))"
  using assms by (auto simp: best_body_def eligible_def expected_cost_def Let_def)

lemma fold_Inr:
  assumes "\<And>a b. a \<in> set as \<Longrightarrow> F a (Inr b) = Inr (g a b)"
  shows "fold F as (Inr b) = Inr (fold g as b)"
  using assms by (induction as arbitrary: b) auto

lemma upd_None: "upd x None = Some x"
  by (simp add: upd_def float_lt_def)

lemma upd_Some: "upd x (Some b) = Some (min x b)"
  by (auto simp: upd_def float_lt_def min_def)

lemma fold_upd_min:
  "fold (\<lambda>a b. if E a then upd (f a) b else b) as None =
     (if filter E as = [] then None else Some (Min (f ` set (filter E as))))"
proof (induction as rule: rev_induct)
  case Nil
  show ?case by simp
next
  case (snoc x as)
  show ?case
  proof (cases "E x")
    case False
    with snoc show ?thesis by simp
  next
    case True
    show ?thesis
    proof (cases "filter E as = []")
      case True
      with \<open>E x\<close> snoc show ?thesis by (simp add: upd_None)
    next
      case False
      then have ne: "f ` set (filter E as) \<noteq> {}" by (auto simp: filter_empty_conv)
      have "Min (insert (f x) (f ` set (filter E as))) = min (f x) (Min (f ` set (filter E as)))"
        using ne by (intro Min_insert) auto
      with False \<open>E x\<close> snoc show ?thesis by (simp add: upd_Some)
    qed
  qed
qed

lemma fold_best_first:
  assumes "fold (\<lambda>a acc. if E a \<and> float_lt (f a) (fst acc) then (Some (f a), Some a) else acc)
             as (None, None) = r"
  shows "(filter E as = [] \<and> r = (None, None)) \<or>
         (\<exists>pre a post. as = pre @ a # post \<and> E a \<and> r = (Some (f a), Some a) \<and>
            (\<forall>x\<in>set pre. E x \<longrightarrow> f a < f x) \<and> (\<forall>x\<in>set post. E x \<longrightarrow> f a \<le> f x))"
  using assms
proof (induction as arbitrary: r rule: rev_induct)
  case Nil
  then show ?case by simp
next
  case (snoc x as)
  let ?step = "\<lambda>a acc. if E a \<and> float_lt (f a) (fst acc) then (Some (f a), Some a) else acc"
  define r0 where "r0 = fold ?step as (None, None)"
  have "fold ?step (as @ [x]) (None, None) = ?step x (fold ?step as (None, None))"
    by (simp only: fold_append fold.simps comp_apply id_apply)
  then have r: "r = ?step x r0" using snoc.prems by (simp only: r0_def)
  from snoc.IH[OF r0_def[symmetric]]
  consider (empty) "filter E as = []" "r0 = (None, None)"
    | (split) pre a post where "as = pre @ a # post" "E a" "r0 = (Some (f a), Some a)"
        "\<forall>x\<in>set pre. E x \<longrightarrow> f a < f x" "\<forall>x\<in>set post. E x \<longrightarrow> f a \<le> f x"
    by blast
  then show ?case
  proof cases
    case empty
    show ?thesis
    proof (cases "E x")
      case False
      with empty r show ?thesis by simp
    next
      case True
      have "\<forall>y\<in>set as. \<not> E y" using empty(1) by (simp add: filter_empty_conv)
      then have "\<forall>y\<in>set as. E y \<longrightarrow> f x < f y" by blast
      moreover have "r = (Some (f x), Some x)" using r empty(2) True by (simp add: float_lt_def)
      ultimately have "as @ [x] = as @ x # [] \<and> E x \<and> r = (Some (f x), Some x) \<and>
            (\<forall>y\<in>set as. E y \<longrightarrow> f x < f y) \<and> (\<forall>y\<in>set []. E y \<longrightarrow> f x \<le> f y)"
        using True by simp
      then show ?thesis by blast
    qed
  next
    case split
    show ?thesis
    proof (cases "E x \<and> f x < f a")
      case True
      have "\<forall>y\<in>set as. E y \<longrightarrow> f x < f y"
      proof (intro ballI impI)
        fix y assume "y \<in> set as" "E y"
        then have "f a \<le> f y" using split(1,4,5) by auto
        with True show "f x < f y" by simp
      qed
      moreover have "r = (Some (f x), Some x)" using r split(3) True by (simp add: float_lt_def)
      ultimately have "as @ [x] = as @ x # [] \<and> E x \<and> r = (Some (f x), Some x) \<and>
            (\<forall>y\<in>set as. E y \<longrightarrow> f x < f y) \<and> (\<forall>y\<in>set []. E y \<longrightarrow> f x \<le> f y)"
        using True by simp
      then show ?thesis by blast
    next
      case False
      have "r = (Some (f a), Some a)" using r split(3) False by (auto simp: float_lt_def)
      moreover have "\<forall>y\<in>set (post @ [x]). E y \<longrightarrow> f a \<le> f y" using split(5) False by auto
      moreover have "as @ [x] = pre @ a # (post @ [x])" using split(1) by simp
      ultimately show ?thesis using split(2,4) by blast
    qed
  qed
qed

subsection \<open>Rounding keeps the bounds 0 and 1\<close>

lemma round_half_even_ge: "of_int n \<le> x \<Longrightarrow> n \<le> round_half_even x"
proof -
  assume "of_int n \<le> x"
  then have "n \<le> \<lfloor>x\<rfloor>" by (simp add: le_floor_iff)
  then show ?thesis by (simp add: round_half_even_def Let_def)
qed

lemma round_pos_nonneg: "0 \<le> round_pos x"
proof (induction x rule: round_pos.induct)
  case (1 x)
  show ?case
  proof (cases "x \<le> 0")
    case True
    then show ?thesis by (simp add: round_pos.simps[of x])
  next
    case pos: False
    show ?thesis
    proof (cases "x < 2 ^ 52")
      case True
      with pos "1.IH"(1) show ?thesis by (simp add: round_pos.simps[of x])
    next
      case small: False
      show ?thesis
      proof (cases "2 ^ 53 \<le> x")
        case True
        with pos small "1.IH"(2) show ?thesis by (simp add: round_pos.simps[of x])
      next
        case False
        have "of_int 0 \<le> x" using pos by simp
        then have "0 \<le> round_half_even x" by (rule round_half_even_ge)
        with pos small False show ?thesis by (simp add: round_pos.simps[of x])
      qed
    qed
  qed
qed

lemma round_pos_ge_power: "2 ^ j \<le> x \<Longrightarrow> 2 ^ j \<le> round_pos x"
proof (induction x arbitrary: j rule: round_pos.induct)
  case (1 x)
  have pos: "\<not> x \<le> 0"
  proof
    assume "x \<le> 0"
    moreover have "(0::real) < 2 ^ j" by simp
    ultimately show False using "1.prems" by linarith
  qed
  show ?case
  proof (cases "x < 2 ^ 52")
    case True
    have "2 ^ Suc j \<le> 2 * x" using "1.prems" by simp
    then have "2 ^ Suc j \<le> round_pos (2 * x)" using pos True by (intro "1.IH"(1))
    then have "2 ^ j \<le> round_pos (2 * x) / 2" by simp
    with pos True show ?thesis by (simp add: round_pos.simps[of x])
  next
    case small: False
    show ?thesis
    proof (cases "2 ^ 53 \<le> x")
      case True
      have "2 ^ j \<le> 2 * round_pos (x / 2)"
      proof (cases j)
        case 0
        have "(2::real) ^ 0 \<le> x / 2" using True by simp
        then have "2 ^ 0 \<le> round_pos (x / 2)" using pos small True by (intro "1.IH"(2))
        with 0 show ?thesis by simp
      next
        case (Suc j')
        have "2 ^ j' \<le> x / 2" using "1.prems" Suc by simp
        then have "2 ^ j' \<le> round_pos (x / 2)" using pos small True by (intro "1.IH"(2))
        with Suc show ?thesis by simp
      qed
      with pos small True show ?thesis by (simp add: round_pos.simps[of x])
    next
      case False
      then have "(2::real) ^ j < 2 ^ 53" using "1.prems" by linarith
      from power_less_imp_less_exp[OF _ this] have "j \<le> 52" by simp
      then have "(2::real) ^ j \<le> 2 ^ 52" by (rule power_increasing) simp
      moreover have "of_int (2 ^ 52) \<le> x" using small by simp
      then have "2 ^ 52 \<le> round_half_even x" by (rule round_half_even_ge)
      then have "(2::real) ^ 52 \<le> of_int (round_half_even x)"
        by (metis of_int_le_iff of_int_numeral of_int_power)
      ultimately have "(2::real) ^ j \<le> of_int (round_half_even x)" by linarith
      with pos small False show ?thesis by (simp add: round_pos.simps[of x])
    qed
  qed
qed

lemma round_double_nonneg: "0 \<le> x \<Longrightarrow> 0 \<le> round_double x"
  by (simp add: round_double_def round_pos_nonneg)

lemma round_double_ge1: "1 \<le> x \<Longrightarrow> 1 \<le> round_double x"
  using round_pos_ge_power[of 0 x] by (simp add: round_double_def)

lemma expected_fold_ge1:
  assumes "1 \<le> e" and "\<forall>p\<in>set ps. 0 \<le> c p"
  shows "1 \<le> foldl (\<lambda>expected p. fadd expected (fmul (fdiv (real (k p)) (real n)) (c p))) e ps"
  using assms
proof (induction ps arbitrary: e)
  case Nil
  then show ?case by simp
next
  case (Cons p ps)
  have "0 \<le> fdiv (real (k p)) (real n)"
    unfolding fdiv_def by (rule round_double_nonneg) simp
  moreover have "0 \<le> c p" using Cons.prems(2) by simp
  ultimately have "0 \<le> fmul (fdiv (real (k p)) (real n)) (c p)"
    unfolding fmul_def by (intro round_double_nonneg mult_nonneg_nonneg)
  with Cons.prems(1) have "1 \<le> fadd e (fmul (fdiv (real (k p)) (real n)) (c p))"
    unfolding fadd_def by (intro round_double_ge1) linarith
  moreover have "\<forall>q\<in>set ps. 0 \<le> c q" using Cons.prems(2) by simp
  ultimately show ?case by (simp add: Cons.IH)
qed

lemma expected_cost_ge1:
  assumes "partitions sel orc ids attr = Inr parts"
    and "\<forall>p\<in>set parts. 0 \<le> projr (cost it orc (snd p))"
  shows "1 \<le> expected_cost sel it orc ids attr"
  unfolding expected_cost_def assms(1) sum.sel
  using assms(2) by (intro expected_fold_ge1) simp_all

lemma cost_char:
  assumes "lookups_ok orc ids"
  shows "cost it orc ids =
           Inr (if card ids \<le> 1 then 0
                else if {a \<in> set (attributes orc). eligible it orc ids a} = {} then 0
                else Min (expected_cost it it orc ids ` {a \<in> set (attributes orc). eligible it orc ids a}))
         \<and> 0 \<le> projr (cost it orc ids)"
  using assms
proof (induction "card ids" arbitrary: ids rule: less_induct)
  case less
  let ?E = "eligible it orc ids" and ?f = "expected_cost it it orc ids"
  show ?case
  proof (cases "card ids \<le> 1")
    case True
    then show ?thesis by (simp add: cost_unfold)
  next
    case False
    then have fin: "finite ids" by (cases "finite ids") auto
    have sub: "\<not> isl (cost it orc (snd p)) \<and> 0 \<le> projr (cost it orc (snd p))"
      if "partitions it orc ids attr = Inr parts" "eligible it orc ids attr" "p \<in> set parts"
      for attr parts p
    proof -
      have "\<not> length parts \<le> 1" using that(1,2) by (simp add: eligible_def)
      then have "card (snd p) < card ids"
        using partitions_part_smaller[OF that(1) _ False that(3)] by simp
      moreover have "lookups_ok orc (snd p)"
        using lookups_ok_subset[OF less.prems part_subset(1)[OF that(1) fin that(3)]] .
      ultimately have ih: "cost it orc (snd p) =
           Inr (if card (snd p) \<le> 1 then 0
                else if {a \<in> set (attributes orc). eligible it orc (snd p) a} = {} then 0
                else Min (expected_cost it it orc (snd p) `
                       {a \<in> set (attributes orc). eligible it orc (snd p) a}))
         \<and> 0 \<le> projr (cost it orc (snd p))"
        by (rule less.hyps)
      then obtain c where "cost it orc (snd p) = Inr c" by blast
      moreover from ih have "0 \<le> projr (cost it orc (snd p))" by blast
      ultimately show ?thesis by simp
    qed
    have body: "cost_body it orc ids a (Inr b) = Inr (if ?E a then upd (?f a) b else b)"
      if a: "a \<in> set (attributes orc)" for a b
    proof -
      obtain parts where parts: "partitions it orc ids a = Inr parts"
        using partitions_Inr[OF less.prems a] by blast
      show ?thesis
      proof (rule cost_body_pure[OF parts])
        assume "eligible it orc ids a"
        then show "\<forall>p\<in>set parts. \<not> isl (cost it orc (snd p))" using sub[OF parts] by blast
      qed
    qed
    have ge1: "1 \<le> ?f a" if a: "a \<in> set (attributes orc)" and e: "?E a" for a
    proof -
      obtain parts where parts: "partitions it orc ids a = Inr parts"
        using partitions_Inr[OF less.prems a] by blast
      show ?thesis using expected_cost_ge1[OF parts] sub[OF parts e] by blast
    qed
    have "fold (cost_body it orc ids) (attributes orc) (Inr None) =
            Inr (fold (\<lambda>a b. if ?E a then upd (?f a) b else b) (attributes orc) None)"
      by (rule fold_Inr) (rule body)
    also have "\<dots> = Inr (if filter ?E (attributes orc) = [] then None
                       else Some (Min (?f ` set (filter ?E (attributes orc)))))"
      by (simp only: fold_upd_min)
    finally have fold: "fold (cost_body it orc ids) (attributes orc) (Inr None) =
        Inr (if {a \<in> set (attributes orc). ?E a} = {} then None
             else Some (Min (?f ` {a \<in> set (attributes orc). ?E a})))"
      by (simp add: filter_empty_conv)
    show ?thesis
    proof (cases "{a \<in> set (attributes orc). ?E a} = {}")
      case True
      have "fold (cost_body it orc ids) (attributes orc) (Inr None) = Inr None"
        using fold by (simp only: True if_True simp_thms)
      with False have c: "cost it orc ids = Inr 0" by (simp add: cost_unfold)
      have rhs: "(if card ids \<le> 1 then 0
                else if {a \<in> set (attributes orc). ?E a} = {} then 0
                else Min (?f ` {a \<in> set (attributes orc). ?E a})) = 0"
        by (simp only: True if_True if_cancel simp_thms)
      show ?thesis by (simp only: rhs c sum.sel simp_thms order_refl)
    next
      case ne: False
      let ?M = "?f ` {a \<in> set (attributes orc). ?E a}"
      have "Min ?M \<in> ?M" using ne by (intro Min_in) auto
      then obtain a where "a \<in> set (attributes orc)" "?E a" "Min ?M = ?f a" by blast
      then have "1 \<le> Min ?M" using ge1[of a] by simp
      then have nonneg: "0 \<le> Min ?M" by linarith
      have "fold (cost_body it orc ids) (attributes orc) (Inr None) = Inr (Some (Min ?M))"
        using fold by (simp only: ne if_False)
      with False have c: "cost it orc ids = Inr (Min ?M)" by (simp add: cost_unfold)
      have rhs: "(if card ids \<le> 1 then 0
                else if {a \<in> set (attributes orc). ?E a} = {} then 0
                else Min ?M) = Min ?M"
        using False by (simp only: ne if_False)
      from nonneg show ?thesis by (simp only: rhs c sum.sel simp_thms)
    qed
  qed
qed

subsection \<open>Facts about the two loops on well-formed oracles\<close>

lemma sub_costs_ok:
  assumes "lookups_ok orc ids" and "partitions sel orc ids attr = Inr parts" and "p \<in> set parts"
    and "finite ids"
  shows "\<not> isl (cost it orc (snd p))" and "0 \<le> projr (cost it orc (snd p))"
proof -
  have "lookups_ok orc (snd p)"
    using lookups_ok_subset[OF assms(1) part_subset(1)[OF assms(2,4,3)]] .
  from cost_char[where it=it, OF this] obtain c where c: "cost it orc (snd p) = Inr c"
    and nn: "0 \<le> projr (cost it orc (snd p))" by blast
  show "\<not> isl (cost it orc (snd p))" by (simp add: c)
  show "0 \<le> projr (cost it orc (snd p))" by (rule nn)
qed

lemma expected_cost_eligible_ge1:
  assumes "lookups_ok orc ids" and "attr \<in> set (attributes orc)" and "finite ids"
  shows "1 \<le> expected_cost sel it orc ids attr"
proof -
  obtain parts where parts: "partitions sel orc ids attr = Inr parts"
    using partitions_Inr[where it=sel, OF assms(1,2)] by blast
  have "\<forall>p\<in>set parts. 0 \<le> projr (cost it orc (snd p))"
    using sub_costs_ok(2)[OF assms(1) parts _ assms(3)] by blast
  then show ?thesis by (rule expected_cost_ge1[OF parts])
qed

lemma eligible_card:
  assumes "finite ids" and "eligible it orc ids attr"
  shows "\<not> card ids \<le> 1"
proof -
  from assms(2) obtain parts where parts: "partitions it orc ids attr = Inr parts"
    and c: "\<not> length parts \<le> 1"
    by (auto simp: eligible_def split: sum.splits)
  note items = partitions_items[OF parts assms(1)]
  have "length parts = card (set parts)" using items(3) by (simp add: distinct_card)
  also have "\<dots> \<le> card ((\<lambda>obj_id. projr (table_get orc obj_id attr)) ` ids)"
    unfolding items(2) using assms(1) by (intro card_image_le finite_imageI)
  also have "\<dots> \<le> card ids" using assms(1) by (rule card_image_le)
  finally show ?thesis using c by simp
qed

lemma cost_eligible_ge1:
  assumes "lookups_ok orc ids" and "\<not> card ids \<le> 1"
    and "attr \<in> set (attributes orc)" and "eligible it orc ids attr"
  shows "\<exists>c. cost it orc ids = Inr c \<and> 1 \<le> c"
proof -
  let ?A = "{a \<in> set (attributes orc). eligible it orc ids a}"
  let ?M = "expected_cost it it orc ids ` ?A"
  have ne: "?A \<noteq> {}" using assms(3,4) by blast
  have fin: "finite ids" using assms(2) by (cases "finite ids") auto
  have "cost it orc ids = Inr (if card ids \<le> 1 then 0 else if ?A = {} then 0 else Min ?M)"
    using cost_char[where it=it, OF assms(1)] by blast
  then have c: "cost it orc ids = Inr (Min ?M)" using assms(2) by (simp only: ne if_False)
  have "Min ?M \<in> ?M" using ne by (intro Min_in) auto
  then obtain a where "a \<in> set (attributes orc)" "Min ?M = expected_cost it it orc ids a" by blast
  then have "1 \<le> Min ?M" using expected_cost_eligible_ge1[where it=it, OF assms(1) _ fin, of a] by simp
  with c show ?thesis by blast
qed

lemma best_attribute_char:
  assumes "lookups_ok orc ids" and "\<not> card ids \<le> 1"
  shows "(filter (eligible sel orc ids) (attributes orc) = [] \<and> best_attribute sel it orc ids = Inr None) \<or>
         (\<exists>pre a post. attributes orc = pre @ a # post \<and> eligible sel orc ids a \<and>
            best_attribute sel it orc ids = Inr (Some a) \<and>
            (\<forall>x\<in>set pre. eligible sel orc ids x \<longrightarrow> expected_cost sel it orc ids a < expected_cost sel it orc ids x) \<and>
            (\<forall>x\<in>set post. eligible sel orc ids x \<longrightarrow> expected_cost sel it orc ids a \<le> expected_cost sel it orc ids x))"
proof -
  let ?E = "eligible sel orc ids" and ?f = "expected_cost sel it orc ids"
  let ?g = "\<lambda>a acc. if ?E a \<and> float_lt (?f a) (fst acc) then (Some (?f a), Some a) else acc"
  have fin: "finite ids" using assms(2) by (cases "finite ids") auto
  have body: "best_body sel it orc ids a (Inr acc) = Inr (?g a acc)"
    if a: "a \<in> set (attributes orc)" for a acc
  proof -
    obtain parts where parts: "partitions sel orc ids a = Inr parts"
      using partitions_Inr[where it=sel, OF assms(1) a] by blast
    have "\<forall>p\<in>set parts. \<not> isl (cost it orc (snd p))"
      using sub_costs_ok(1)[OF assms(1) parts _ fin] by blast
    then have "best_body sel it orc ids a (Inr (fst acc, snd acc)) =
         Inr (if ?E a \<and> float_lt (?f a) (fst acc) then (Some (?f a), Some a)
              else (fst acc, snd acc))"
      by (intro best_body_pure[OF parts])
    then show ?thesis by (simp only: prod.collapse)
  qed
  define r where "r = fold ?g (attributes orc) (None, None)"
  have "fold (best_body sel it orc ids) (attributes orc) (Inr (None, None)) = Inr r"
    unfolding r_def by (rule fold_Inr) (rule body)
  with assms(2) have ba: "best_attribute sel it orc ids = Inr (snd r)"
    by (cases r) (simp add: best_attribute_unfold)
  from fold_best_first[OF r_def[symmetric]]
  consider (none) "filter ?E (attributes orc) = []" "r = (None, None)"
    | (some) pre a post where "attributes orc = pre @ a # post" "?E a" "r = (Some (?f a), Some a)"
        "\<forall>x\<in>set pre. ?E x \<longrightarrow> ?f a < ?f x" "\<forall>x\<in>set post. ?E x \<longrightarrow> ?f a \<le> ?f x"
    by blast
  then show ?thesis
  proof cases
    case none
    then show ?thesis using ba by simp
  next
    case some
    have "best_attribute sel it orc ids = Inr (Some a)" using ba some(3) by simp
    with some(1,2,4,5) show ?thesis by blast
  qed
qed

lemma best_attribute_Some:
  assumes "lookups_ok orc ids" and "\<not> card ids \<le> 1"
    and "best_attribute sel it orc ids = Inr (Some a)"
  shows "\<exists>pre post. attributes orc = pre @ a # post \<and> eligible sel orc ids a \<and>
           (\<forall>x\<in>set pre. eligible sel orc ids x \<longrightarrow> expected_cost sel it orc ids a < expected_cost sel it orc ids x) \<and>
           (\<forall>x\<in>set (attributes orc). eligible sel orc ids x \<longrightarrow>
               expected_cost sel it orc ids a \<le> expected_cost sel it orc ids x)"
proof -
  from best_attribute_char[where sel=sel and it=it, OF assms(1,2)] assms(3)
  obtain pre post where p: "attributes orc = pre @ a # post" "eligible sel orc ids a"
     "\<forall>x\<in>set pre. eligible sel orc ids x \<longrightarrow> expected_cost sel it orc ids a < expected_cost sel it orc ids x"
     "\<forall>x\<in>set post. eligible sel orc ids x \<longrightarrow> expected_cost sel it orc ids a \<le> expected_cost sel it orc ids x"
    by auto
  have "\<forall>x\<in>set (attributes orc). eligible sel orc ids x \<longrightarrow>
          expected_cost sel it orc ids a \<le> expected_cost sel it orc ids x"
  proof (intro ballI impI)
    fix x assume x: "x \<in> set (attributes orc)" "eligible sel orc ids x"
    then consider "x \<in> set pre" | "x = a" | "x \<in> set post" using p(1) by auto
    then show "expected_cost sel it orc ids a \<le> expected_cost sel it orc ids x"
    proof cases
      case 1 then show ?thesis using p(3) x(2) by fastforce
    next
      case 2 then show ?thesis by simp
    next
      case 3 then show ?thesis using p(4) x(2) by blast
    qed
  qed
  with p(1,2,3) show ?thesis by blast
qed

lemma best_attribute_None_iff:
  assumes "lookups_ok orc ids" and "\<not> card ids \<le> 1"
  shows "best_attribute sel it orc ids = Inr None \<longleftrightarrow> (\<forall>a\<in>set (attributes orc). \<not> eligible sel orc ids a)"
proof -
  from best_attribute_char[where sel=sel and it=it, OF assms]
  consider (none) "filter (eligible sel orc ids) (attributes orc) = []" "best_attribute sel it orc ids = Inr None"
    | (some) pre a post where "attributes orc = pre @ a # post" "eligible sel orc ids a"
        "best_attribute sel it orc ids = Inr (Some a)"
    by blast
  then show ?thesis
  proof cases
    case none
    then show ?thesis by (simp add: filter_empty_conv)
  next
    case some
    have "a \<in> set (attributes orc)" using some(1) by simp
    with some(2,3) show ?thesis by auto
  qed
qed

lemma best_attribute_total:
  assumes "lookups_ok orc ids"
  shows "\<exists>r. best_attribute sel it orc ids = Inr r"
proof (cases "card ids \<le> 1")
  case True
  then show ?thesis by (simp add: best_attribute_unfold)
next
  case False
  from best_attribute_char[where sel=sel and it=it, OF assms False] show ?thesis by blast
qed

lemma cost_eq_minimal:
  assumes "lookups_ok orc ids" and "\<not> card ids \<le> 1"
    and "a \<in> set (attributes orc)" and "eligible it orc ids a"
    and "\<forall>x\<in>set (attributes orc). eligible it orc ids x \<longrightarrow>
           expected_cost it it orc ids a \<le> expected_cost it it orc ids x"
  shows "cost it orc ids = Inr (expected_cost it it orc ids a)"
proof -
  let ?A = "{a \<in> set (attributes orc). eligible it orc ids a}"
  let ?M = "expected_cost it it orc ids ` ?A"
  have ne: "?A \<noteq> {}" using assms(3,4) by blast
  have "cost it orc ids = Inr (if card ids \<le> 1 then 0 else if ?A = {} then 0 else Min ?M)"
    using cost_char[where it=it, OF assms(1)] by blast
  then have c: "cost it orc ids = Inr (Min ?M)" using assms(2) by (simp only: ne if_False)
  have "Min ?M = expected_cost it it orc ids a"
  proof (rule Min_eqI)
    show "finite ?M" by simp
    show "expected_cost it it orc ids a \<in> ?M" using assms(3,4) by blast
    fix y assume "y \<in> ?M"
    then show "expected_cost it it orc ids a \<le> y" using assms(5) by auto
  qed
  with c show ?thesis by simp
qed

lemma finite_candidates: "ids \<subseteq> set (object_ids orc) \<Longrightarrow> finite ids"
  by (erule finite_subset) (rule finite_set)


subsection \<open>The loop of the trajectory\<close>

text \<open>
  A candidate set at which the loop appends 0.0 and leaves the set unchanged: it has at most
  one object, or the selector returns no attribute.
\<close>

definition stuck :: "iteration \<Rightarrow> iteration \<Rightarrow> KaryOracle \<Rightarrow> string set \<Rightarrow> bool" where
  "stuck sel it orc ids = (card ids \<le> 1 \<or> best_attribute sel it orc ids = Inr None)"

text \<open>Once an entry is 0, all later entries are 0.\<close>

fun zero_absorbing :: "real list \<Rightarrow> bool" where
  "zero_absorbing [] = True"
| "zero_absorbing (x # xs) = ((x = 0 \<longrightarrow> (\<forall>y\<in>set xs. y = 0)) \<and> zero_absorbing xs)"

lemma log2_Inr:
  assumes "log2 k = Inr h"
  shows "0 < k" and "h = log 2 (real k)" and "0 \<le> h" and "h = 0 \<Longrightarrow> k = 1"
proof -
  from assms show k: "0 < k" and h: "h = log 2 (real k)"
    by (auto simp: log2_def split: if_splits)
  from k have "1 \<le> real k" by simp
  then show "0 \<le> h" unfolding h by simp
  assume "h = 0"
  with h have "\<not> 0 < log 2 (real k)" by simp
  then have "\<not> 1 < real k" using k by (simp add: zero_less_log_cancel_iff)
  with k show "k = 1" by simp
qed

lemma stuck_step:
  assumes "stuck sel it orc ids"
  shows "trajectory_step sel it orc target_id (ids, entropies) = Inr (ids, entropies @ [0])"
  using assms by (auto simp: stuck_def trajectory_step_def)

lemma step_result:
  assumes "trajectory_step sel it orc target_id (ids, entropies) = Inr (ids', entropies')"
  shows "\<exists>h. entropies' = entropies @ [h] \<and> ids' \<subseteq> ids \<and> 0 \<le> h \<and> (h = 0 \<longrightarrow> stuck sel it orc ids')"
proof (cases "stuck sel it orc ids")
  case True
  from stuck_step[OF True] assms have "ids' = ids" "entropies' = entropies @ [0]" by simp_all
  with True show ?thesis by simp
next
  case False
  then have big: "\<not> card ids \<le> 1" and nn: "best_attribute sel it orc ids \<noteq> Inr None"
    by (simp_all add: stuck_def)
  obtain attr where ba': "best_attribute sel it orc ids = Inr (Some attr)"
  proof (cases "best_attribute sel it orc ids")
    case (Inl e)
    with assms big show ?thesis by (simp add: trajectory_step_def)
  next
    case (Inr b)
    with nn obtain a where "b = Some a" by (cases b) auto
    with Inr that show ?thesis by simp
  qed
  from assms big ba' obtain target_value where
    tv: "table_get orc target_id attr = Inr target_value"
    by (cases "table_get orc target_id attr") (auto simp: trajectory_step_def)
  let ?new = "{obj_id \<in> ids. table_get orc obj_id attr = Inr target_value}"
  from assms big ba' tv have
    st: "(case log2 (card ?new) of Inl e \<Rightarrow> Inl e | Inr h \<Rightarrow> Inr (?new, entropies @ [h])) =
         Inr (ids', entropies')"
    by (simp add: trajectory_step_def Let_def split: if_splits)
  then obtain h where h: "log2 (card ?new) = Inr h"
    by (cases "log2 (card ?new)") auto
  with st have r: "ids' = ?new" "entropies' = entropies @ [h]" by simp_all
  have "h = 0 \<longrightarrow> stuck sel it orc ids'"
    using log2_Inr(4)[OF h] r(1) by (auto simp: stuck_def)
  with log2_Inr(3)[OF h] r show ?thesis by auto
qed

lemma loop_stuck:
  assumes "stuck sel it orc ids"
  shows "trajectory_loop sel it orc target_id k (ids, entropies) = Inr (ids, entropies @ replicate k 0)"
  using assms
proof (induction k arbitrary: entropies)
  case 0
  show ?case by simp
next
  case (Suc k)
  have "trajectory_loop sel it orc target_id (Suc k) (ids, entropies) =
        trajectory_loop sel it orc target_id k (ids, entropies @ [0])"
    by (simp add: stuck_step[OF Suc.prems])
  also have "\<dots> = Inr (ids, (entropies @ [0]) @ replicate k 0)"
    by (rule Suc.IH[OF Suc.prems])
  finally show ?case by (simp add: replicate_app_Cons_same)
qed

lemma loop_result:
  assumes "trajectory_loop sel it orc target_id k (ids, entropies) = Inr (ids', entropies')"
  shows "\<exists>suffix. entropies' = entropies @ suffix \<and> length suffix = k \<and> ids' \<subseteq> ids \<and>
           zero_absorbing suffix \<and> (\<forall>x\<in>set suffix. 0 \<le> x)"
  using assms
proof (induction k arbitrary: ids entropies)
  case 0
  then show ?case by simp
next
  case (Suc k)
  from Suc.prems obtain ids1 ent1 where
    s: "trajectory_step sel it orc target_id (ids, entropies) = Inr (ids1, ent1)"
    and l: "trajectory_loop sel it orc target_id k (ids1, ent1) = Inr (ids', entropies')"
    by (auto split: sum.splits)
  from step_result[OF s] obtain h where
    h: "ent1 = entropies @ [h]" "ids1 \<subseteq> ids" "0 \<le> h" "h = 0 \<longrightarrow> stuck sel it orc ids1"
    by blast
  from Suc.IH[OF l] obtain suffix where
    suf: "entropies' = ent1 @ suffix" "length suffix = k" "ids' \<subseteq> ids1"
      "zero_absorbing suffix" "\<forall>x\<in>set suffix. 0 \<le> x"
    by blast
  have zeros: "\<forall>y\<in>set suffix. y = 0" if "h = 0"
  proof -
    from that h(4) have "stuck sel it orc ids1" by simp
    from loop_stuck[OF this, of target_id k ent1] l suf(1)
    have "suffix = replicate k 0" by simp
    then show ?thesis by simp
  qed
  have "entropies' = entropies @ (h # suffix)" using suf(1) h(1) by simp
  moreover have "length (h # suffix) = Suc k" using suf(2) by simp
  moreover have "ids' \<subseteq> ids" using suf(3) h(2) by blast
  moreover have "zero_absorbing (h # suffix)" using zeros suf(4) by simp
  moreover have "\<forall>x\<in>set (h # suffix). 0 \<le> x" using suf(5) h(3) by simp
  ultimately show ?case by blast
qed

lemma zero_absorbing_nth:
  assumes "zero_absorbing xs" and "i < j" and "j < length xs" and "xs ! i = 0"
  shows "xs ! j = 0"
  using assms
proof (induction xs arbitrary: i j)
  case Nil
  then show ?case by simp
next
  case (Cons x xs)
  show ?case
  proof (cases i)
    case 0
    with Cons.prems have "x = 0" and "0 < j" by simp_all
    with Cons.prems(1) have all: "\<forall>y\<in>set xs. y = 0" by simp
    from \<open>0 < j\<close> Cons.prems(3) have "xs ! (j - 1) \<in> set xs" by (intro nth_mem) simp
    with all \<open>0 < j\<close> show ?thesis by (simp add: nth_Cons')
  next
    case (Suc i')
    with Cons.prems obtain j' where j': "j = Suc j'" by (cases j) auto
    from Cons.prems Suc j' have "zero_absorbing xs" "i' < j'" "j' < length xs" "xs ! i' = 0"
      by simp_all
    from Cons.IH[OF this] j' show ?thesis by simp
  qed
qed

lemma step_total:
  assumes "lookups_ok orc ids" and "target_id \<in> ids"
  shows "\<exists>ids' h. trajectory_step sel it orc target_id (ids, entropies) = Inr (ids', entropies @ [h]) \<and>
           ids' \<subseteq> ids \<and> target_id \<in> ids'"
proof (cases "stuck sel it orc ids")
  case True
  from stuck_step[OF True] assms(2) show ?thesis by blast
next
  case False
  then have big: "\<not> card ids \<le> 1" and nn: "best_attribute sel it orc ids \<noteq> Inr None"
    by (simp_all add: stuck_def)
  have fin: "finite ids" using big by (cases "finite ids") auto
  from best_attribute_total[where sel=sel and it=it, OF assms(1)] nn obtain attr where
    ba: "best_attribute sel it orc ids = Inr (Some attr)"
    by (metis option.exhaust)
  from best_attribute_Some[OF assms(1) big ba] have attr: "attr \<in> set (attributes orc)"
    by auto
  have ok: "\<forall>obj_id\<in>ids. \<not> isl (table_get orc obj_id attr)"
    using assms(1) attr by (simp add: lookups_ok_def)
  then obtain target_value where tv: "table_get orc target_id attr = Inr target_value"
    using assms(2) by (cases "table_get orc target_id attr") auto
  let ?new = "{obj_id \<in> ids. table_get orc obj_id attr = Inr target_value}"
  have mem: "target_id \<in> ?new" using assms(2) tv by simp
  have "finite ?new" using fin by simp
  with mem have "card ?new \<noteq> 0" by auto
  then have lg: "log2 (card ?new) = Inr (log 2 (real (card ?new)))" by (simp add: log2_def)
  have "trajectory_step sel it orc target_id (ids, entropies) =
          Inr (?new, entropies @ [log 2 (real (card ?new))])"
    using big ba tv ok lg by (simp add: trajectory_step_def Let_def)
  with mem show ?thesis by blast
qed

lemma loop_total:
  assumes "lookups_ok orc ids" and "target_id \<in> ids"
  shows "\<exists>ids' entropies'. trajectory_loop sel it orc target_id k (ids, entropies) = Inr (ids', entropies') \<and>
           target_id \<in> ids'"
  using assms
proof (induction k arbitrary: ids entropies)
  case 0
  then show ?case by simp
next
  case (Suc k)
  from step_total[where sel=sel and it=it, OF Suc.prems, of entropies] obtain ids1 h where
    s: "trajectory_step sel it orc target_id (ids, entropies) = Inr (ids1, entropies @ [h])"
    and sub: "ids1 \<subseteq> ids" and mem: "target_id \<in> ids1"
    by blast
  have "lookups_ok orc ids1" using lookups_ok_subset[OF Suc.prems(1) sub] .
  from Suc.IH[OF this mem, of "entropies @ [h]"] s show ?case by simp
qed

lemma target_in_object_ids:
  assumes "KaryOracle_init t = Inr orc" and "map_of (table orc) target_id \<noteq> None"
  shows "target_id \<in> set (object_ids orc)"
proof -
  have t: "table orc = t" "object_ids orc = sort (map fst t)"
    using assms(1) by (auto simp: KaryOracle_init_def split: if_splits)
  from assms(2) t(1) have "target_id \<in> fst ` set t" by (simp add: map_of_eq_None_iff)
  with t(2) show ?thesis by simp
qed

lemma trajectory_run:
  assumes "KaryOracle_init t = Inr orc" and "uniform_table t"
    and "map_of (table orc) target_id \<noteq> None"
  shows "\<exists>ids entropies.
           trajectory_loop sel it orc target_id k (set (object_ids orc), []) = Inr (ids, entropies) \<and>
           target_id \<in> ids \<and> ids \<subseteq> set (object_ids orc) \<and> length entropies = k \<and>
           zero_absorbing entropies \<and> (\<forall>x\<in>set entropies. 0 \<le> x)"
proof -
  have ok: "lookups_ok orc (set (object_ids orc))"
    using assms(1,2) by (rule init_lookups_ok) simp
  have mem: "target_id \<in> set (object_ids orc)"
    using assms(1,3) by (rule target_in_object_ids)
  from loop_total[where sel=sel and it=it, OF ok mem, of k "[]"] obtain ids entropies where
    l: "trajectory_loop sel it orc target_id k (set (object_ids orc), []) = Inr (ids, entropies)"
    and m: "target_id \<in> ids" by blast
  from loop_result[OF l] m l show ?thesis by auto
qed

text \<open>A run of \<open>j + k\<close> steps passes through the state after \<open>j\<close> steps.\<close>

lemma trajectory_loop_add:
  "trajectory_loop sel it orc target_id (j + k) st =
     (case trajectory_loop sel it orc target_id j st of
        Inl e \<Rightarrow> Inl e
      | Inr st' \<Rightarrow> trajectory_loop sel it orc target_id k st')"
  by (induction j arbitrary: st) (simp_all split: sum.splits)

subsection \<open>The recursion of the cost\<close>

text \<open>
  \<open>cost_rel\<close> is the call relation of \<open>cost\<close>, as the definition of the function gives it:
  \<open>cost_rel (it, orc, sub) (it, orc, ids)\<close> holds when \<open>cost it orc ids\<close> calls \<open>cost it orc sub\<close>. A chain of
  recursive calls is a list of candidate sets, each calling the next.
\<close>

fun call_chain :: "iteration \<Rightarrow> KaryOracle \<Rightarrow> string set list \<Rightarrow> bool" where
  "call_chain it orc [] = True"
| "call_chain it orc [ids] = True"
| "call_chain it orc (ids # sub # rest) =
     (cost_rel (it, orc, sub) (it, orc, ids) \<and> call_chain it orc (sub # rest))"

lemma cost_rel_calls:
  assumes "cost_rel (it', orc', sub) (it, orc, ids)"
  shows "it' = it \<and> orc' = orc \<and> \<not> card ids \<le> 1 \<and>
         (\<exists>attr\<in>set (attributes orc). \<exists>parts p. partitions it orc ids attr = Inr parts \<and>
            \<not> length parts \<le> 1 \<and> p \<in> set parts \<and> sub = snd p)"
  using assms
proof (cases rule: cost_rel.cases)
  case 1
  then show ?thesis by blast
next
  case 2
  then show ?thesis by blast
qed

lemma card_parts_iff:
  assumes "finite ids" and "partitions it orc ids attr = Inr parts"
  shows "\<not> length parts \<le> 1 \<longleftrightarrow>
         (\<exists>x\<in>ids. \<exists>y\<in>ids. table_get orc x attr \<noteq> table_get orc y attr)"
proof -
  let ?g = "\<lambda>obj_id. table_get orc obj_id attr"
  let ?V = "(\<lambda>obj_id. projr (?g obj_id)) ` ids"
  let ?f = "\<lambda>val. (val, {obj_id \<in> ids. ?g obj_id = Inr val})"
  note items = partitions_items[OF assms(2,1)]
  have "inj_on ?f ?V" by (rule inj_onI) simp
  then have "length parts = card ?V" 
    using items(3) by (simp add: distinct_card[symmetric] items(2) card_image)
  moreover have "finite ?V" using assms(1) by simp
  then have "card ?V \<le> 1 \<longleftrightarrow> (\<forall>a\<in>?V. \<forall>b\<in>?V. a = b)"
    using card_le_Suc0_iff_eq[of ?V] by simp
  moreover have "(\<forall>a\<in>?V. \<forall>b\<in>?V. a = b) \<longleftrightarrow> (\<forall>x\<in>ids. \<forall>y\<in>ids. ?g x = ?g y)"
  proof
    assume h: "\<forall>a\<in>?V. \<forall>b\<in>?V. a = b"
    show "\<forall>x\<in>ids. \<forall>y\<in>ids. ?g x = ?g y"
    proof (intro ballI)
      fix x y assume xy: "x \<in> ids" "y \<in> ids"
      then have "projr (?g x) = projr (?g y)" using h by blast
      moreover have "?g x = Inr (projr (?g x))" "?g y = Inr (projr (?g y))"
        using items(1) xy by blast+
      ultimately show "?g x = ?g y" by simp
    qed
  next
    assume h: "\<forall>x\<in>ids. \<forall>y\<in>ids. ?g x = ?g y"
    show "\<forall>a\<in>?V. \<forall>b\<in>?V. a = b"
    proof (intro ballI)
      fix a b assume "a \<in> ?V" "b \<in> ?V"
      then obtain x y where xy: "x \<in> ids" "a = projr (?g x)" "y \<in> ids" "b = projr (?g y)"
        by blast
      from h xy(1,3) have "?g x = ?g y" by blast
      then show "a = b" unfolding xy(2,4) by (rule arg_cong)
    qed
  qed
  ultimately have "length parts \<le> 1 \<longleftrightarrow> (\<forall>x\<in>ids. \<forall>y\<in>ids. ?g x = ?g y)"
    by (simp only:)
  then show ?thesis by blast
qed

lemma eligible_mono:
  assumes "lookups_ok orc ids" and "attr \<in> set (attributes orc)" and "finite ids"
    and "sub \<subseteq> ids" and "eligible it orc sub attr"
  shows "eligible it orc ids attr"
proof -
  have fs: "finite sub" using assms(3,4) by (rule finite_subset[rotated])
  from assms(5) obtain parts' where p': "partitions it orc sub attr = Inr parts'"
    "\<not> length parts' \<le> 1"
    by (auto simp: eligible_def split: sum.splits)
  from partitions_Inr[where it=it, OF assms(1,2)] obtain parts where p: "partitions it orc ids attr = Inr parts"
    by blast
  from card_parts_iff[OF fs p'(1)] p'(2) obtain x y where
    "x \<in> sub" "y \<in> sub" "table_get orc x attr \<noteq> table_get orc y attr" by blast
  with assms(4) have "\<exists>x\<in>ids. \<exists>y\<in>ids. table_get orc x attr \<noteq> table_get orc y attr" by blast
  with card_parts_iff[OF assms(3) p] have "\<not> length parts \<le> 1" by simp
  with p show ?thesis by (simp add: eligible_def)
qed

lemma part_not_eligible:
  assumes "partitions it orc ids attr = Inr parts" and "p \<in> set parts" and "finite ids"
  shows "\<not> eligible it orc (snd p) attr"
proof
  assume e: "eligible it orc (snd p) attr"
  from partitions_items(2)[OF assms(1,3)] assms(2) obtain v where
    v: "snd p = {obj_id \<in> ids. table_get orc obj_id attr = Inr v}" by auto
  have fs: "finite (snd p)" using assms(3) v by simp
  from e obtain parts' where p': "partitions it orc (snd p) attr = Inr parts'"
    "\<not> length parts' \<le> 1"
    by (auto simp: eligible_def split: sum.splits)
  from card_parts_iff[OF fs p'(1)] p'(2) obtain x y where
    "x \<in> snd p" "y \<in> snd p" "table_get orc x attr \<noteq> table_get orc y attr" by blast
  with v show False by simp
qed

lemma cost_dom_all: "cost_dom (it, orc, ids)"
proof (induction "card ids" arbitrary: ids rule: less_induct)
  case less
  show ?case
  proof (rule accpI)
    fix y assume y: "cost_rel y (it, orc, ids)"
    obtain it' orc' sub where ys: "y = (it', orc', sub)" by (cases y)
    from cost_rel_calls[OF y[unfolded ys]] obtain attr parts p where
      c0: "it' = it" and c: "orc' = orc" "\<not> card ids \<le> 1" "partitions it orc ids attr = Inr parts"
        "\<not> length parts \<le> 1" "p \<in> set parts" "sub = snd p"
      by blast
    have "card sub < card ids"
      unfolding c(6) using c(3,4,2,5) by (rule partitions_part_smaller)
    then have "cost_dom (it, orc, sub)" by (rule less.hyps)
    then show "cost_dom y" by (simp only: ys c(1) c0)
  qed
qed

lemma call_fewer_eligible:
  assumes "lookups_ok orc ids" and "finite ids" and "cost_rel (it, orc, sub) (it, orc, ids)"
  shows "sub \<subset> ids" and "card sub < card ids"
    and "{a \<in> set (attributes orc). eligible it orc sub a} \<subset>
         {a \<in> set (attributes orc). eligible it orc ids a}"
proof -
  from cost_rel_calls[OF assms(3)] obtain attr parts p where
    c: "\<not> card ids \<le> 1" "attr \<in> set (attributes orc)" "partitions it orc ids attr = Inr parts"
      "\<not> length parts \<le> 1" "p \<in> set parts" "sub = snd p"
    by blast
  show less: "card sub < card ids"
    unfolding c(6) using c(3,4,1,5) by (rule partitions_part_smaller)
  have sub: "sub \<subseteq> ids" unfolding c(6) using c(3) assms(2) c(5) by (rule part_subset(1))
  with less show "sub \<subset> ids" by auto
  have "eligible it orc ids attr" using c(3,4) by (simp add: eligible_def)
  moreover have "\<not> eligible it orc sub attr"
    unfolding c(6) using c(3,5) assms(2) by (rule part_not_eligible)
  moreover have "eligible it orc ids a"
    if "a \<in> set (attributes orc)" "eligible it orc sub a" for a
    using assms(1) that(1) assms(2) sub that(2) by (rule eligible_mono)
  ultimately show "{a \<in> set (attributes orc). eligible it orc sub a} \<subset>
         {a \<in> set (attributes orc). eligible it orc ids a}"
    using c(2) by blast
qed

lemma call_chain_bounded:
  assumes "lookups_ok orc ids" and "finite ids" and "call_chain it orc (ids # chain)"
  shows "length chain \<le> card {a \<in> set (attributes orc). eligible it orc ids a}"
  using assms
proof (induction chain arbitrary: ids)
  case Nil
  show ?case by simp
next
  case (Cons sub rest)
  from Cons.prems(3) have call: "cost_rel (it, orc, sub) (it, orc, ids)"
    and rest: "call_chain it orc (sub # rest)" by simp_all
  note f = call_fewer_eligible[OF Cons.prems(1,2) call]
  have "lookups_ok orc sub" using Cons.prems(1) f(1) by (auto intro: lookups_ok_subset)
  moreover have "finite sub" using Cons.prems(2) f(1) by (auto intro: finite_subset)
  ultimately have "length rest \<le> card {a \<in> set (attributes orc). eligible it orc sub a}"
    using rest by (rule Cons.IH)
  also have "\<dots> < card {a \<in> set (attributes orc). eligible it orc ids a}"
    using f(3) by (intro psubset_card_mono) simp_all
  finally show ?case by simp
qed

subsection \<open>Evaluating the rounding\<close>

lemma round_pos_up:
  "0 < x \<Longrightarrow> 2 ^ 52 \<le> x * 2 ^ k \<Longrightarrow> x * 2 ^ k < 2 ^ 53 \<Longrightarrow>
   round_pos x = of_int (round_half_even (x * 2 ^ k)) / 2 ^ k"
proof (induction k arbitrary: x)
  case 0
  then show ?case by (simp add: round_pos.simps[of x])
next
  case (Suc k)
  have lt: "x < 2 ^ 52"
  proof (rule ccontr)
    assume "\<not> x < 2 ^ 52"
    then have "2 ^ 52 * 2 \<le> x * 2 ^ Suc k"
      using Suc.prems(1) by (intro mult_mono) (simp_all add: self_le_power)
    with Suc.prems(3) show False by simp
  qed
  have "round_pos (2 * x) = of_int (round_half_even ((2 * x) * 2 ^ k)) / 2 ^ k"
    using Suc.prems by (intro Suc.IH) (simp_all add: mult_ac)
  then show ?case using Suc.prems(1) lt by (simp add: round_pos.simps[of x] mult_ac)
qed

lemma round_double_up:
  assumes "0 < x" and "2 ^ 52 \<le> x * 2 ^ k" and "x * 2 ^ k < 2 ^ 53"
  shows "round_double x = of_int (round_half_even (x * 2 ^ k)) / 2 ^ k"
  using round_pos_up[OF assms] assms(1) by (simp add: round_double_def)

lemma round_double_0: "round_double 0 = 0"
  by (simp add: round_double_def round_pos.simps[of 0])

lemma round_half_even_of_int: "round_half_even (of_int n) = n"
  by (simp add: round_half_even_def)

lemma round_double_exact:
  assumes "0 < x" and "2 ^ 52 \<le> x * 2 ^ k" and "x * 2 ^ k < 2 ^ 53"
    and "x * 2 ^ k = of_int n"
  shows "round_double x = x"
proof -
  have "round_double x = of_int (round_half_even (x * 2 ^ k)) / 2 ^ k"
    using assms(1,2,3) by (rule round_double_up)
  also have "\<dots> = x * 2 ^ k / 2 ^ k" by (simp only: assms(4) round_half_even_of_int)
  finally show ?thesis by simp
qed

lemma round_double_half: "round_double (1 / 2) = 1 / 2"
  by (rule round_double_exact[where k = 53 and n = "2 ^ 52"]) simp_all

lemma round_double_1: "round_double 1 = 1"
  by (rule round_double_exact[where k = 52 and n = "2 ^ 52"]) simp_all

lemma round_double_3_2: "round_double (3 / 2) = 3 / 2"
  by (rule round_double_exact[where k = 52 and n = "3 * 2 ^ 51"]) simp_all

lemma round_double_2: "round_double 2 = 2"
  by (rule round_double_exact[where k = 51 and n = "2 ^ 52"]) simp_all

lemma round_double_third: "round_double (1 / 3) = 6004799503160661 / 2 ^ 54"
proof -
  have "round_double (1 / 3) = of_int (round_half_even ((1 / 3) * 2 ^ 54)) / 2 ^ 54"
    by (rule round_double_up) simp_all
  also have "round_half_even ((1 / 3) * 2 ^ 54) = 6004799503160661"
    by (simp add: round_half_even_def Let_def)
  finally show ?thesis by simp
qed

subsection \<open>Evaluating the loops\<close>

text \<open>The groups of a partition, whatever the order of the iteration.\<close>

definition groups :: "KaryOracle \<Rightarrow> string set \<Rightarrow> string \<Rightarrow> string set set" where
  "groups orc ids attr =
     (\<lambda>val. {obj_id \<in> ids. table_get orc obj_id attr = Inr val}) `
       ((\<lambda>obj_id. projr (table_get orc obj_id attr)) ` ids)"

lemma partitions_groups:
  assumes "partitions sel orc ids attr = Inr parts" and "finite ids"
  shows "snd ` set parts = groups orc ids attr" and "length parts = card (groups orc ids attr)"
proof -
  let ?g = "\<lambda>obj_id. table_get orc obj_id attr"
  let ?V = "(\<lambda>obj_id. projr (?g obj_id)) ` ids"
  let ?G = "\<lambda>val. {obj_id \<in> ids. ?g obj_id = Inr val}"
  note items = partitions_items[OF assms]
  show "snd ` set parts = groups orc ids attr"
    unfolding items(2) groups_def by (simp add: image_image)
  have inj: "inj_on ?G ?V"
  proof (rule inj_onI)
    fix v w assume v: "v \<in> ?V" and w: "w \<in> ?V" and eq: "?G v = ?G w"
    from v obtain x where x: "x \<in> ids" "v = projr (?g x)" by blast
    with items(1) have "?g x = Inr v" by simp
    with x(1) have "x \<in> ?G v" by simp
    with eq have "x \<in> ?G w" by simp
    then have "?g x = Inr w" by simp
    with \<open>?g x = Inr v\<close> show "v = w" by simp
  qed
  have "length parts = card (set parts)" using items(3) by (simp add: distinct_card)
  also have "\<dots> = card ?V"
    unfolding items(2) by (rule card_image) (rule inj_onI, simp)
  also have "\<dots> = card (?G ` ?V)" using inj by (simp add: card_image)
  finally show "length parts = card (groups orc ids attr)" by (simp only: groups_def)
qed

lemma eligible_groups:
  assumes "lookups_ok orc ids" and "attr \<in> set (attributes orc)" and "finite ids"
  shows "eligible sel orc ids attr \<longleftrightarrow> \<not> card (groups orc ids attr) \<le> 1"
proof -
  obtain parts where parts: "partitions sel orc ids attr = Inr parts"
    using partitions_Inr[where it=sel, OF assms(1,2)] by blast
  show ?thesis
    by (simp add: eligible_def parts partitions_groups(2)[OF parts assms(3)])
qed

lemma foldl_const_step:
  assumes "\<forall>p\<in>set ps. f p = t"
  shows "foldl (\<lambda>e p. fadd e (f p)) e0 ps = ((\<lambda>e. fadd e t) ^^ length ps) e0"
  using assms
proof (induction ps arbitrary: e0)
  case Nil
  show ?case by simp
next
  case (Cons p ps)
  have "foldl (\<lambda>e p. fadd e (f p)) e0 (p # ps) = foldl (\<lambda>e p. fadd e (f p)) (fadd e0 t) ps"
    using Cons.prems by simp
  also have "\<dots> = ((\<lambda>e. fadd e t) ^^ length ps) (fadd e0 t)"
    using Cons.prems by (intro Cons.IH) simp
  finally show ?case by (simp only: list.size funpow_Suc_right comp_apply add_Suc_right add_0_right)
qed

text \<open>
  The expected cost of an attribute whose groups all have the same size and the same cost:
  the order of the groups does not matter.
\<close>

lemma expected_cost_groups:
  assumes "lookups_ok orc ids" and "attr \<in> set (attributes orc)" and "finite ids"
    and "\<forall>g\<in>groups orc ids attr. card g = k \<and> cost it orc g = Inr c"
  shows "expected_cost sel it orc ids attr =
           ((\<lambda>e. fadd e (fmul (fdiv (real k) (real (card ids))) c))
              ^^ card (groups orc ids attr)) 1"
proof -
  obtain parts where parts: "partitions sel orc ids attr = Inr parts"
    using partitions_Inr[where it=sel, OF assms(1,2)] by blast
  note g = partitions_groups[OF parts assms(3)]
  have "\<forall>p\<in>set parts. fmul (fdiv (real (card (snd p))) (real (card ids)))
                          (projr (cost it orc (snd p))) =
                        fmul (fdiv (real k) (real (card ids))) c"
  proof
    fix p assume "p \<in> set parts"
    then have "snd p \<in> groups orc ids attr" using g(1) by blast
    with assms(4) have "card (snd p) = k" "cost it orc (snd p) = Inr c" by blast+
    then show "fmul (fdiv (real (card (snd p))) (real (card ids)))
                 (projr (cost it orc (snd p))) =
               fmul (fdiv (real k) (real (card ids))) c"
      by simp
  qed
  then have "foldl (\<lambda>e p. fadd e (fmul (fdiv (real (card (snd p))) (real (card ids)))
                                   (projr (cost it orc (snd p))))) 1 parts =
             ((\<lambda>e. fadd e (fmul (fdiv (real k) (real (card ids))) c)) ^^ length parts) 1"
    by (rule foldl_const_step)
  then show ?thesis by (simp only: expected_cost_def parts sum.sel g(2))
qed

text \<open>One pass of the body of each loop over an attribute of the oracle.\<close>

lemma cost_body_eval:
  assumes "lookups_ok orc ids" and "attr \<in> set (attributes orc)" and "finite ids"
  shows "cost_body it orc ids attr (Inr b) =
         Inr (if eligible it orc ids attr then upd (expected_cost it it orc ids attr) b else b)"
proof -
  obtain parts where parts: "partitions it orc ids attr = Inr parts"
    using partitions_Inr[where it=it, OF assms(1,2)] by blast
  have "\<forall>p\<in>set parts. \<not> isl (cost it orc (snd p))"
    using sub_costs_ok(1)[OF assms(1) parts _ assms(3)] by blast
  then show ?thesis by (intro cost_body_pure[OF parts])
qed

lemma best_body_eval:
  assumes "lookups_ok orc ids" and "attr \<in> set (attributes orc)" and "finite ids"
  shows "best_body sel it orc ids attr (Inr (b, ba)) =
         Inr (if eligible sel orc ids attr \<and> float_lt (expected_cost sel it orc ids attr) b
              then (Some (expected_cost sel it orc ids attr), Some attr) else (b, ba))"
proof -
  obtain parts where parts: "partitions sel orc ids attr = Inr parts"
    using partitions_Inr[where it=sel, OF assms(1,2)] by blast
  have "\<forall>p\<in>set parts. \<not> isl (cost it orc (snd p))"
    using sub_costs_ok(1)[OF assms(1) parts _ assms(3)] by blast
  then show ?thesis by (intro best_body_pure[OF parts])
qed

text \<open>Whether an attribute is eligible does not depend on the order of the iteration.\<close>

lemma eligible_iter:
  assumes "lookups_ok orc ids" and "attr \<in> set (attributes orc)" and "finite ids"
  shows "eligible sel orc ids attr = eligible it orc ids attr"
  by (simp only: eligible_groups[OF assms])

text \<open>
  A candidate set that every eligible attribute splits into single objects costs one
  question.
\<close>

lemma funpow_fadd_0: "((\<lambda>e. fadd e (fmul x 0)) ^^ m) 1 = 1"
  by (induction m) (simp_all add: fadd_def fmul_def round_double_0 round_double_1)

lemma expected_cost_singletons:
  assumes "lookups_ok orc ids" and "attr \<in> set (attributes orc)" and "finite ids"
    and "\<forall>g\<in>groups orc ids attr. card g = 1"
  shows "expected_cost sel it orc ids attr = 1"
proof -
  have "\<forall>g\<in>groups orc ids attr. card g = 1 \<and> cost it orc g = Inr 0"
    using assms(4) by (simp add: cost_unfold)
  from expected_cost_groups[OF assms(1,2,3) this] show ?thesis
    by (simp only: funpow_fadd_0)
qed

lemma cost_one_question:
  assumes "lookups_ok orc ids" and "finite ids"
    and "\<exists>a\<in>set (attributes orc). \<not> card (groups orc ids a) \<le> 1"
    and "\<forall>a\<in>set (attributes orc). \<not> card (groups orc ids a) \<le> 1 \<longrightarrow>
           (\<forall>g\<in>groups orc ids a. card g = 1)"
  shows "cost it orc ids = Inr 1"
proof -
  let ?A = "{a \<in> set (attributes orc). eligible it orc ids a}"
  let ?M = "expected_cost it it orc ids ` ?A"
  from assms(3) obtain a where a: "a \<in> set (attributes orc)" "eligible it orc ids a"
    using eligible_groups[OF assms(1) _ assms(2)] by blast
  then have ne: "?A \<noteq> {}" by blast
  have big: "\<not> card ids \<le> 1" using assms(2) a(2) by (rule eligible_card)
  have "expected_cost it it orc ids x = 1" if "x \<in> ?A" for x
  proof -
    from that have x: "x \<in> set (attributes orc)" "eligible it orc ids x" by simp_all
    then have "\<not> card (groups orc ids x) \<le> 1"
      using eligible_groups[OF assms(1) x(1) assms(2)] by simp
    with assms(4) x(1) have "\<forall>g\<in>groups orc ids x. card g = 1" by blast
    with assms(1) x(1) assms(2) show ?thesis by (rule expected_cost_singletons)
  qed
  then have "?M = {1}" using ne by auto
  then have "Min ?M = 1" by simp
  moreover have "cost it orc ids = Inr (if card ids \<le> 1 then 0 else if ?A = {} then 0 else Min ?M)"
    using cost_char[where it=it, OF assms(1)] by blast
  ultimately show ?thesis using big by (simp only: ne if_False)
qed

subsection \<open>The table of the concrete scenario\<close>

definition table4 :: attr_table where
  "table4 = [(''0'', [(''a'', ''x''), (''b'', ''p'')]),
             (''1'', [(''a'', ''x''), (''b'', ''q'')]),
             (''2'', [(''a'', ''y''), (''b'', ''p'')]),
             (''3'', [(''a'', ''y''), (''b'', ''q'')])]"

definition oracle4 :: KaryOracle where
  "oracle4 = \<lparr>table = table4, object_ids = [''0'', ''1'', ''2'', ''3''],
               attributes = [''a'', ''b'']\<rparr>"

lemma init_table4: "KaryOracle_init table4 = Inr oracle4"
  by code_simp

lemma uniform_table4: "uniform_table table4"
  by code_simp

lemma full4: "set (object_ids oracle4) = {''0'', ''1'', ''2'', ''3''}"
  by (simp add: oracle4_def)

lemma attributes4: "attributes oracle4 = [''a'', ''b'']"
  by (simp add: oracle4_def)

lemma lookups4: "ids \<subseteq> {''0'', ''1'', ''2'', ''3''} \<Longrightarrow> lookups_ok oracle4 ids"
  using init_lookups_ok[OF init_table4 uniform_table4, of ids] by (simp add: oracle4_def)

text \<open>The halves of the table by either attribute cost one question.\<close>

lemma cost4_01: "cost it oracle4 {''0'', ''1''} = Inr 1"
proof (rule cost_one_question)
  show "lookups_ok oracle4 {''0'', ''1''}" by (simp add: lookups4)
  show "finite {''0'', ''1''}" by simp
  show "\<exists>a\<in>set (attributes oracle4). \<not> card (groups oracle4 {''0'', ''1''} a) \<le> 1"
    by code_simp
  show "\<forall>a\<in>set (attributes oracle4). \<not> card (groups oracle4 {''0'', ''1''} a) \<le> 1 \<longrightarrow>
          (\<forall>g\<in>groups oracle4 {''0'', ''1''} a. card g = 1)"
    by code_simp
qed

lemma cost4_23: "cost it oracle4 {''2'', ''3''} = Inr 1"
proof (rule cost_one_question)
  show "lookups_ok oracle4 {''2'', ''3''}" by (simp add: lookups4)
  show "finite {''2'', ''3''}" by simp
  show "\<exists>a\<in>set (attributes oracle4). \<not> card (groups oracle4 {''2'', ''3''} a) \<le> 1"
    by code_simp
  show "\<forall>a\<in>set (attributes oracle4). \<not> card (groups oracle4 {''2'', ''3''} a) \<le> 1 \<longrightarrow>
          (\<forall>g\<in>groups oracle4 {''2'', ''3''} a. card g = 1)"
    by code_simp
qed

lemma cost4_02: "cost it oracle4 {''0'', ''2''} = Inr 1"
proof (rule cost_one_question)
  show "lookups_ok oracle4 {''0'', ''2''}" by (simp add: lookups4)
  show "finite {''0'', ''2''}" by simp
  show "\<exists>a\<in>set (attributes oracle4). \<not> card (groups oracle4 {''0'', ''2''} a) \<le> 1"
    by code_simp
  show "\<forall>a\<in>set (attributes oracle4). \<not> card (groups oracle4 {''0'', ''2''} a) \<le> 1 \<longrightarrow>
          (\<forall>g\<in>groups oracle4 {''0'', ''2''} a. card g = 1)"
    by code_simp
qed

lemma cost4_13: "cost it oracle4 {''1'', ''3''} = Inr 1"
proof (rule cost_one_question)
  show "lookups_ok oracle4 {''1'', ''3''}" by (simp add: lookups4)
  show "finite {''1'', ''3''}" by simp
  show "\<exists>a\<in>set (attributes oracle4). \<not> card (groups oracle4 {''1'', ''3''} a) \<le> 1"
    by code_simp
  show "\<forall>a\<in>set (attributes oracle4). \<not> card (groups oracle4 {''1'', ''3''} a) \<le> 1 \<longrightarrow>
          (\<forall>g\<in>groups oracle4 {''1'', ''3''} a. card g = 1)"
    by code_simp
qed

text \<open>The full table: either attribute gives two halves, and 1 + 1/2 + 1/2 is exact.\<close>

lemma groups4_a: "groups oracle4 {''0'', ''1'', ''2'', ''3''} ''a'' = {{''0'', ''1''}, {''2'', ''3''}}"
  by code_simp

lemma groups4_b: "groups oracle4 {''0'', ''1'', ''2'', ''3''} ''b'' = {{''0'', ''2''}, {''1'', ''3''}}"
  by code_simp

lemma card_groups4_a: "card (groups oracle4 {''0'', ''1'', ''2'', ''3''} ''a'') = 2"
  by code_simp

lemma card_groups4_b: "card (groups oracle4 {''0'', ''1'', ''2'', ''3''} ''b'') = 2"
  by code_simp

lemma two_halves: "((\<lambda>e. fadd e (fmul (fdiv 2 4) 1)) ^^ 2) 1 = 2"
proof -
  have d: "fdiv 2 4 = 1 / 2" by (simp add: fdiv_def round_double_half)
  have m: "fmul (1 / 2) 1 = 1 / 2" by (simp add: fmul_def round_double_half)
  have a1: "fadd 1 (1 / 2) = 3 / 2" by (simp add: fadd_def round_double_3_2)
  have a2: "fadd (3 / 2) (1 / 2) = 2" by (simp add: fadd_def round_double_2)
  have n: "(2::nat) = Suc (Suc 0)" by simp
  show ?thesis unfolding n by (simp only: funpow.simps comp_apply id_apply d m a1 a2)
qed

lemma eligible4_a: "eligible sel oracle4 {''0'', ''1'', ''2'', ''3''} ''a''"
  by (simp add: eligible_groups[OF lookups4] attributes4 card_groups4_a)

lemma eligible4_b: "eligible sel oracle4 {''0'', ''1'', ''2'', ''3''} ''b''"
  by (simp add: eligible_groups[OF lookups4] attributes4 card_groups4_b)

lemma expected4_a: "expected_cost sel it oracle4 {''0'', ''1'', ''2'', ''3''} ''a'' = 2"
proof -
  have "expected_cost sel it oracle4 {''0'', ''1'', ''2'', ''3''} ''a'' =
          ((\<lambda>e. fadd e (fmul (fdiv (real 2) (real (card {''0'', ''1'', ''2'', ''3''}))) 1))
              ^^ card (groups oracle4 {''0'', ''1'', ''2'', ''3''} ''a'')) 1"
    by (rule expected_cost_groups) (simp_all add: lookups4 attributes4 groups4_a cost4_01 cost4_23)
  also have "\<dots> = 2" by (simp add: card_groups4_a two_halves)
  finally show ?thesis .
qed

lemma expected4_b: "expected_cost sel it oracle4 {''0'', ''1'', ''2'', ''3''} ''b'' = 2"
proof -
  have "expected_cost sel it oracle4 {''0'', ''1'', ''2'', ''3''} ''b'' =
          ((\<lambda>e. fadd e (fmul (fdiv (real 2) (real (card {''0'', ''1'', ''2'', ''3''}))) 1))
              ^^ card (groups oracle4 {''0'', ''1'', ''2'', ''3''} ''b'')) 1"
    by (rule expected_cost_groups) (simp_all add: lookups4 attributes4 groups4_b cost4_02 cost4_13)
  also have "\<dots> = 2" by (simp add: card_groups4_b two_halves)
  finally show ?thesis .
qed

lemma cost_full4: "cost it oracle4 (set (object_ids oracle4)) = Inr 2"
proof -
  have ok: "lookups_ok oracle4 {''0'', ''1'', ''2'', ''3''}" by (simp add: lookups4)
  have fin: "finite {''0'', ''1'', ''2'', ''3''}" by simp
  show ?thesis unfolding full4
    by (simp add: cost_unfold attributes4 cost_body_eval[OF ok _ fin] eligible4_a eligible4_b
        expected4_a expected4_b upd_def float_lt_def)
qed

lemma best_full4: "best_attribute sel it oracle4 (set (object_ids oracle4)) = Inr (Some ''a'')"
proof -
  have ok: "lookups_ok oracle4 {''0'', ''1'', ''2'', ''3''}" by (simp add: lookups4)
  have fin: "finite {''0'', ''1'', ''2'', ''3''}" by simp
  show ?thesis unfolding full4
    by (simp add: best_attribute_unfold attributes4 best_body_eval[OF ok _ fin]
        eligible4_a eligible4_b expected4_a expected4_b float_lt_def)
qed

lemma card_full4: "card (set (object_ids oracle4)) = 4"
  by code_simp

lemma eligible_full4_a: "eligible sel oracle4 (set (object_ids oracle4)) ''a''"
  unfolding full4 by (rule eligible4_a)

lemma best4_01: "best_attribute sel it oracle4 (set [''0'', ''1'']) = Inr (Some ''b'')"
proof -
  have ok: "lookups_ok oracle4 {''0'', ''1''}" by (simp add: lookups4)
  have fin: "finite {''0'', ''1''}" by simp
  have ca: "card (groups oracle4 {''0'', ''1''} ''a'') = 1" by code_simp
  have cb: "card (groups oracle4 {''0'', ''1''} ''b'') = 2" by code_simp
  have a: "\<not> eligible sel oracle4 {''0'', ''1''} ''a''"
    by (simp add: eligible_groups[OF ok _ fin] attributes4 ca)
  have b: "eligible sel oracle4 {''0'', ''1''} ''b''"
    by (simp add: eligible_groups[OF ok _ fin] attributes4 cb)
  show ?thesis
    by (simp add: best_attribute_unfold attributes4 best_body_eval[OF ok _ fin] a b float_lt_def)
qed

subsection \<open>A table on which the rounding shows\<close>

text \<open>
  Six objects; attribute a splits them into two groups of three, attribute b into three
  groups of two. Every group costs one question. With exact arithmetic both attributes
  would have the expected cost 2; the loop computes \<^verbatim>\<open>1.0 + 0.5 + 0.5\<close>, which is 2.0, for a,
  and \<^verbatim>\<open>1.0 + 2/6 + 2/6 + 2/6\<close>, which is \<^verbatim>\<open>1.9999999999999998\<close>, for b.
\<close>

definition table6 :: attr_table where
  "table6 = [(''0'', [(''a'', ''x''), (''b'', ''p'')]),
             (''1'', [(''a'', ''x''), (''b'', ''q'')]),
             (''2'', [(''a'', ''x''), (''b'', ''r'')]),
             (''3'', [(''a'', ''y''), (''b'', ''p'')]),
             (''4'', [(''a'', ''y''), (''b'', ''q'')]),
             (''5'', [(''a'', ''y''), (''b'', ''r'')])]"

definition oracle6 :: KaryOracle where
  "oracle6 = \<lparr>table = table6, object_ids = [''0'', ''1'', ''2'', ''3'', ''4'', ''5''],
               attributes = [''a'', ''b'']\<rparr>"

lemma init_table6: "KaryOracle_init table6 = Inr oracle6"
  by code_simp

lemma uniform_table6: "uniform_table table6"
  by code_simp

lemma full6: "set (object_ids oracle6) = {''0'', ''1'', ''2'', ''3'', ''4'', ''5''}"
  by (simp add: oracle6_def)

lemma attributes6: "attributes oracle6 = [''a'', ''b'']"
  by (simp add: oracle6_def)

lemma lookups6: "ids \<subseteq> {''0'', ''1'', ''2'', ''3'', ''4'', ''5''} \<Longrightarrow> lookups_ok oracle6 ids"
  using init_lookups_ok[OF init_table6 uniform_table6, of ids] by (simp add: oracle6_def)

lemma cost6_012: "cost it oracle6 {''0'', ''1'', ''2''} = Inr 1"
proof (rule cost_one_question)
  show "lookups_ok oracle6 {''0'', ''1'', ''2''}" by (simp add: lookups6)
  show "finite {''0'', ''1'', ''2''}" by simp
  show "\<exists>a\<in>set (attributes oracle6). \<not> card (groups oracle6 {''0'', ''1'', ''2''} a) \<le> 1"
    by code_simp
  show "\<forall>a\<in>set (attributes oracle6). \<not> card (groups oracle6 {''0'', ''1'', ''2''} a) \<le> 1 \<longrightarrow>
          (\<forall>g\<in>groups oracle6 {''0'', ''1'', ''2''} a. card g = 1)"
    by code_simp
qed

lemma cost6_345: "cost it oracle6 {''3'', ''4'', ''5''} = Inr 1"
proof (rule cost_one_question)
  show "lookups_ok oracle6 {''3'', ''4'', ''5''}" by (simp add: lookups6)
  show "finite {''3'', ''4'', ''5''}" by simp
  show "\<exists>a\<in>set (attributes oracle6). \<not> card (groups oracle6 {''3'', ''4'', ''5''} a) \<le> 1"
    by code_simp
  show "\<forall>a\<in>set (attributes oracle6). \<not> card (groups oracle6 {''3'', ''4'', ''5''} a) \<le> 1 \<longrightarrow>
          (\<forall>g\<in>groups oracle6 {''3'', ''4'', ''5''} a. card g = 1)"
    by code_simp
qed

lemma cost6_03: "cost it oracle6 {''0'', ''3''} = Inr 1"
proof (rule cost_one_question)
  show "lookups_ok oracle6 {''0'', ''3''}" by (simp add: lookups6)
  show "finite {''0'', ''3''}" by simp
  show "\<exists>a\<in>set (attributes oracle6). \<not> card (groups oracle6 {''0'', ''3''} a) \<le> 1"
    by code_simp
  show "\<forall>a\<in>set (attributes oracle6). \<not> card (groups oracle6 {''0'', ''3''} a) \<le> 1 \<longrightarrow>
          (\<forall>g\<in>groups oracle6 {''0'', ''3''} a. card g = 1)"
    by code_simp
qed

lemma cost6_14: "cost it oracle6 {''1'', ''4''} = Inr 1"
proof (rule cost_one_question)
  show "lookups_ok oracle6 {''1'', ''4''}" by (simp add: lookups6)
  show "finite {''1'', ''4''}" by simp
  show "\<exists>a\<in>set (attributes oracle6). \<not> card (groups oracle6 {''1'', ''4''} a) \<le> 1"
    by code_simp
  show "\<forall>a\<in>set (attributes oracle6). \<not> card (groups oracle6 {''1'', ''4''} a) \<le> 1 \<longrightarrow>
          (\<forall>g\<in>groups oracle6 {''1'', ''4''} a. card g = 1)"
    by code_simp
qed

lemma cost6_25: "cost it oracle6 {''2'', ''5''} = Inr 1"
proof (rule cost_one_question)
  show "lookups_ok oracle6 {''2'', ''5''}" by (simp add: lookups6)
  show "finite {''2'', ''5''}" by simp
  show "\<exists>a\<in>set (attributes oracle6). \<not> card (groups oracle6 {''2'', ''5''} a) \<le> 1"
    by code_simp
  show "\<forall>a\<in>set (attributes oracle6). \<not> card (groups oracle6 {''2'', ''5''} a) \<le> 1 \<longrightarrow>
          (\<forall>g\<in>groups oracle6 {''2'', ''5''} a. card g = 1)"
    by code_simp
qed

lemma groups6_a:
  "groups oracle6 {''0'', ''1'', ''2'', ''3'', ''4'', ''5''} ''a'' =
     {{''0'', ''1'', ''2''}, {''3'', ''4'', ''5''}}"
  by code_simp

lemma groups6_b:
  "groups oracle6 {''0'', ''1'', ''2'', ''3'', ''4'', ''5''} ''b'' =
     {{''0'', ''3''}, {''1'', ''4''}, {''2'', ''5''}}"
  by code_simp

lemma card_groups6_a: "card (groups oracle6 {''0'', ''1'', ''2'', ''3'', ''4'', ''5''} ''a'') = 2"
  by code_simp

lemma card_groups6_b: "card (groups oracle6 {''0'', ''1'', ''2'', ''3'', ''4'', ''5''} ''b'') = 3"
  by code_simp

lemma eligible6_a: "eligible sel oracle6 {''0'', ''1'', ''2'', ''3'', ''4'', ''5''} ''a''"
  by (simp add: eligible_groups[OF lookups6] attributes6 card_groups6_a)

lemma eligible6_b: "eligible sel oracle6 {''0'', ''1'', ''2'', ''3'', ''4'', ''5''} ''b''"
  by (simp add: eligible_groups[OF lookups6] attributes6 card_groups6_b)

text \<open>\<^verbatim>\<open>1.0 + 3/6 + 3/6\<close> in double precision.\<close>

lemma two_halves6: "((\<lambda>e. fadd e (fmul (fdiv 3 6) 1)) ^^ 2) 1 = 2"
proof -
  have d: "fdiv 3 6 = 1 / 2" by (simp add: fdiv_def round_double_half)
  have m: "fmul (1 / 2) 1 = 1 / 2" by (simp add: fmul_def round_double_half)
  have a1: "fadd 1 (1 / 2) = 3 / 2" by (simp add: fadd_def round_double_3_2)
  have a2: "fadd (3 / 2) (1 / 2) = 2" by (simp add: fadd_def round_double_2)
  have n: "(2::nat) = Suc (Suc 0)" by simp
  show ?thesis unfolding n by (simp only: funpow.simps comp_apply id_apply d m a1 a2)
qed

text \<open>
  \<^verbatim>\<open>1.0 + 2/6 + 2/6 + 2/6\<close> in double precision: \<^verbatim>\<open>2/6\<close> is rounded down, and so is each of
  the three sums.
\<close>

lemma three_thirds6:
  "((\<lambda>e. fadd e (fmul (fdiv 2 6) 1)) ^^ 3) 1 = 9007199254740991 / 2 ^ 52"
proof -
  define t :: real where "t = 6004799503160661 / 2 ^ 54"
  have d: "fdiv 2 6 = t" by (simp add: fdiv_def round_double_third t_def)
  have m: "fmul t 1 = t"
    unfolding fmul_def mult_1_right
    by (rule round_double_exact[where k = 54 and n = 6004799503160661]) (simp_all add: t_def)
  have a1: "fadd 1 t = 6004799503160661 / 2 ^ 52"
  proof -
    have "round_double (1 + t) = of_int (round_half_even ((1 + t) * 2 ^ 52)) / 2 ^ 52"
      by (rule round_double_up) (simp_all add: t_def)
    also have "round_half_even ((1 + t) * 2 ^ 52) = 6004799503160661"
      by (simp add: round_half_even_def Let_def t_def)
    finally show ?thesis by (simp add: fadd_def)
  qed
  have a2: "fadd (6004799503160661 / 2 ^ 52) t = 7505999378950826 / 2 ^ 52"
  proof -
    have "round_double (6004799503160661 / 2 ^ 52 + t) =
            of_int (round_half_even ((6004799503160661 / 2 ^ 52 + t) * 2 ^ 52)) / 2 ^ 52"
      by (rule round_double_up) (simp_all add: t_def)
    also have "round_half_even ((6004799503160661 / 2 ^ 52 + t) * 2 ^ 52) = 7505999378950826"
      by (simp add: round_half_even_def Let_def t_def)
    finally show ?thesis by (simp add: fadd_def)
  qed
  have a3: "fadd (7505999378950826 / 2 ^ 52) t = 9007199254740991 / 2 ^ 52"
  proof -
    have "round_double (7505999378950826 / 2 ^ 52 + t) =
            of_int (round_half_even ((7505999378950826 / 2 ^ 52 + t) * 2 ^ 52)) / 2 ^ 52"
      by (rule round_double_up) (simp_all add: t_def)
    also have "round_half_even ((7505999378950826 / 2 ^ 52 + t) * 2 ^ 52) = 9007199254740991"
      by (simp add: round_half_even_def Let_def t_def)
    finally show ?thesis by (simp add: fadd_def)
  qed
  have n: "(3::nat) = Suc (Suc (Suc 0))" by simp
  show ?thesis unfolding n by (simp only: funpow.simps comp_apply id_apply d m a1 a2 a3)
qed

lemma expected6_a:
  "expected_cost sel it oracle6 {''0'', ''1'', ''2'', ''3'', ''4'', ''5''} ''a'' = 2"
proof -
  have "expected_cost sel it oracle6 {''0'', ''1'', ''2'', ''3'', ''4'', ''5''} ''a'' =
          ((\<lambda>e. fadd e (fmul (fdiv (real 3)
                  (real (card {''0'', ''1'', ''2'', ''3'', ''4'', ''5''}))) 1))
              ^^ card (groups oracle6 {''0'', ''1'', ''2'', ''3'', ''4'', ''5''} ''a'')) 1"
    by (rule expected_cost_groups)
      (simp_all add: lookups6 attributes6 groups6_a cost6_012 cost6_345)
  also have "\<dots> = 2" by (simp add: card_groups6_a two_halves6)
  finally show ?thesis .
qed

lemma expected6_b:
  "expected_cost sel it oracle6 {''0'', ''1'', ''2'', ''3'', ''4'', ''5''} ''b'' =
     9007199254740991 / 2 ^ 52"
proof -
  have "expected_cost sel it oracle6 {''0'', ''1'', ''2'', ''3'', ''4'', ''5''} ''b'' =
          ((\<lambda>e. fadd e (fmul (fdiv (real 2)
                  (real (card {''0'', ''1'', ''2'', ''3'', ''4'', ''5''}))) 1))
              ^^ card (groups oracle6 {''0'', ''1'', ''2'', ''3'', ''4'', ''5''} ''b'')) 1"
    by (rule expected_cost_groups)
      (simp_all add: lookups6 attributes6 groups6_b cost6_03 cost6_14 cost6_25)
  also have "\<dots> = 9007199254740991 / 2 ^ 52" by (simp add: card_groups6_b three_thirds6)
  finally show ?thesis .
qed

lemma cost_full6: "cost it oracle6 (set (object_ids oracle6)) = Inr (9007199254740991 / 2 ^ 52)"
proof -
  have ok: "lookups_ok oracle6 {''0'', ''1'', ''2'', ''3'', ''4'', ''5''}" by (simp add: lookups6)
  have fin: "finite {''0'', ''1'', ''2'', ''3'', ''4'', ''5''}" by simp
  show ?thesis unfolding full6
    by (simp add: cost_unfold attributes6 cost_body_eval[OF ok _ fin] eligible6_a eligible6_b
        expected6_a expected6_b upd_def float_lt_def)
qed

lemma best_full6: "best_attribute sel it oracle6 (set (object_ids oracle6)) = Inr (Some ''b'')"
proof -
  have ok: "lookups_ok oracle6 {''0'', ''1'', ''2'', ''3'', ''4'', ''5''}" by (simp add: lookups6)
  have fin: "finite {''0'', ''1'', ''2'', ''3'', ''4'', ''5''}" by simp
  show ?thesis unfolding full6
    by (simp add: best_attribute_unfold attributes6 best_body_eval[OF ok _ fin]
        eligible6_a eligible6_b expected6_a expected6_b float_lt_def)
qed

subsection \<open>A table on which the order of the iteration shows\<close>

text \<open>
  Seven objects; either attribute splits them into a group of three and two groups of two,
  and every group costs one question. The sums \<^verbatim>\<open>1.0 + 3/7 + 2/7 + 2/7\<close> and
  \<^verbatim>\<open>1.0 + 2/7 + 3/7 + 2/7\<close> are 2.0 in double precision, and \<^verbatim>\<open>1.0 + 2/7 + 2/7 + 3/7\<close> is
  \<^verbatim>\<open>1.9999999999999998\<close>. The iteration \<open>it7\<close> visits the full set in the order 4, 1, 6, 3,
  0, 5, 2, so that attribute b meets its two groups of two first; the iteration \<open>sel7\<close>
  visits it in the order 0, 5, 2, 4, 1, 6, 3 and meets the group of three first for both
  attributes. These are orders in which CPython visits the two equal sets
  \<^verbatim>\<open>frozenset(object_ids)\<close> and \<^verbatim>\<open>frozenset(set(object_ids))\<close> in one process.
\<close>

definition table7 :: attr_table where
  "table7 = [(''0'', [(''a'', ''x''), (''b'', ''p'')]),
             (''1'', [(''a'', ''x''), (''b'', ''q'')]),
             (''2'', [(''a'', ''x''), (''b'', ''r'')]),
             (''3'', [(''a'', ''y''), (''b'', ''p'')]),
             (''4'', [(''a'', ''y''), (''b'', ''q'')]),
             (''5'', [(''a'', ''z''), (''b'', ''p'')]),
             (''6'', [(''a'', ''z''), (''b'', ''r'')])]"

definition oracle7 :: KaryOracle where
  "oracle7 = \<lparr>table = table7, object_ids = [''0'', ''1'', ''2'', ''3'', ''4'', ''5'', ''6''],
               attributes = [''a'', ''b'']\<rparr>"

definition it7 :: iteration where
  "it7 ids = [''4'', ''1'', ''6'', ''3'', ''0'', ''5'', ''2'']"

definition sel7 :: iteration where
  "sel7 ids = [''0'', ''5'', ''2'', ''4'', ''1'', ''6'', ''3'']"

lemma init_table7: "KaryOracle_init table7 = Inr oracle7"
  by code_simp

lemma uniform_table7: "uniform_table table7"
  by code_simp

lemma full7: "set (object_ids oracle7) = {''0'', ''1'', ''2'', ''3'', ''4'', ''5'', ''6''}"
  by (simp add: oracle7_def)

lemma attributes7: "attributes oracle7 = [''a'', ''b'']"
  by (simp add: oracle7_def)

lemma lookups7:
  "ids \<subseteq> {''0'', ''1'', ''2'', ''3'', ''4'', ''5'', ''6''} \<Longrightarrow> lookups_ok oracle7 ids"
  using init_lookups_ok[OF init_table7 uniform_table7, of ids] by (simp add: oracle7_def)

lemma cost7_012: "cost it oracle7 {''0'', ''1'', ''2''} = Inr 1"
proof (rule cost_one_question)
  show "lookups_ok oracle7 {''0'', ''1'', ''2''}" by (simp add: lookups7)
  show "finite {''0'', ''1'', ''2''}" by simp
  show "\<exists>a\<in>set (attributes oracle7). \<not> card (groups oracle7 {''0'', ''1'', ''2''} a) \<le> 1"
    by code_simp
  show "\<forall>a\<in>set (attributes oracle7). \<not> card (groups oracle7 {''0'', ''1'', ''2''} a) \<le> 1 \<longrightarrow>
          (\<forall>g\<in>groups oracle7 {''0'', ''1'', ''2''} a. card g = 1)"
    by code_simp
qed

lemma cost7_34: "cost it oracle7 {''3'', ''4''} = Inr 1"
proof (rule cost_one_question)
  show "lookups_ok oracle7 {''3'', ''4''}" by (simp add: lookups7)
  show "finite {''3'', ''4''}" by simp
  show "\<exists>a\<in>set (attributes oracle7). \<not> card (groups oracle7 {''3'', ''4''} a) \<le> 1"
    by code_simp
  show "\<forall>a\<in>set (attributes oracle7). \<not> card (groups oracle7 {''3'', ''4''} a) \<le> 1 \<longrightarrow>
          (\<forall>g\<in>groups oracle7 {''3'', ''4''} a. card g = 1)"
    by code_simp
qed

lemma cost7_56: "cost it oracle7 {''5'', ''6''} = Inr 1"
proof (rule cost_one_question)
  show "lookups_ok oracle7 {''5'', ''6''}" by (simp add: lookups7)
  show "finite {''5'', ''6''}" by simp
  show "\<exists>a\<in>set (attributes oracle7). \<not> card (groups oracle7 {''5'', ''6''} a) \<le> 1"
    by code_simp
  show "\<forall>a\<in>set (attributes oracle7). \<not> card (groups oracle7 {''5'', ''6''} a) \<le> 1 \<longrightarrow>
          (\<forall>g\<in>groups oracle7 {''5'', ''6''} a. card g = 1)"
    by code_simp
qed

lemma cost7_035: "cost it oracle7 {''0'', ''3'', ''5''} = Inr 1"
proof (rule cost_one_question)
  show "lookups_ok oracle7 {''0'', ''3'', ''5''}" by (simp add: lookups7)
  show "finite {''0'', ''3'', ''5''}" by simp
  show "\<exists>a\<in>set (attributes oracle7). \<not> card (groups oracle7 {''0'', ''3'', ''5''} a) \<le> 1"
    by code_simp
  show "\<forall>a\<in>set (attributes oracle7). \<not> card (groups oracle7 {''0'', ''3'', ''5''} a) \<le> 1 \<longrightarrow>
          (\<forall>g\<in>groups oracle7 {''0'', ''3'', ''5''} a. card g = 1)"
    by code_simp
qed

lemma cost7_14: "cost it oracle7 {''1'', ''4''} = Inr 1"
proof (rule cost_one_question)
  show "lookups_ok oracle7 {''1'', ''4''}" by (simp add: lookups7)
  show "finite {''1'', ''4''}" by simp
  show "\<exists>a\<in>set (attributes oracle7). \<not> card (groups oracle7 {''1'', ''4''} a) \<le> 1"
    by code_simp
  show "\<forall>a\<in>set (attributes oracle7). \<not> card (groups oracle7 {''1'', ''4''} a) \<le> 1 \<longrightarrow>
          (\<forall>g\<in>groups oracle7 {''1'', ''4''} a. card g = 1)"
    by code_simp
qed

lemma cost7_26: "cost it oracle7 {''2'', ''6''} = Inr 1"
proof (rule cost_one_question)
  show "lookups_ok oracle7 {''2'', ''6''}" by (simp add: lookups7)
  show "finite {''2'', ''6''}" by simp
  show "\<exists>a\<in>set (attributes oracle7). \<not> card (groups oracle7 {''2'', ''6''} a) \<le> 1"
    by code_simp
  show "\<forall>a\<in>set (attributes oracle7). \<not> card (groups oracle7 {''2'', ''6''} a) \<le> 1 \<longrightarrow>
          (\<forall>g\<in>groups oracle7 {''2'', ''6''} a. card g = 1)"
    by code_simp
qed

text \<open>The dict \<^verbatim>\<open>partitions\<close> of either attribute at the full set, under the two orders.\<close>

lemma partitions7_sel7_a:
  "partitions sel7 oracle7 {''0'', ''1'', ''2'', ''3'', ''4'', ''5'', ''6''} ''a'' =
     Inr [(''x'', {''0'', ''1'', ''2''}), (''z'', {''5'', ''6''}), (''y'', {''3'', ''4''})]"
  by code_simp

lemma partitions7_sel7_b:
  "partitions sel7 oracle7 {''0'', ''1'', ''2'', ''3'', ''4'', ''5'', ''6''} ''b'' =
     Inr [(''p'', {''0'', ''3'', ''5''}), (''r'', {''2'', ''6''}), (''q'', {''1'', ''4''})]"
  by code_simp

lemma partitions7_it7_a:
  "partitions it7 oracle7 {''0'', ''1'', ''2'', ''3'', ''4'', ''5'', ''6''} ''a'' =
     Inr [(''y'', {''3'', ''4''}), (''x'', {''0'', ''1'', ''2''}), (''z'', {''5'', ''6''})]"
  by code_simp

lemma partitions7_it7_b:
  "partitions it7 oracle7 {''0'', ''1'', ''2'', ''3'', ''4'', ''5'', ''6''} ''b'' =
     Inr [(''q'', {''1'', ''4''}), (''r'', {''2'', ''6''}), (''p'', {''0'', ''3'', ''5''})]"
  by code_simp

text \<open>The quotients \<^verbatim>\<open>3/7\<close> and \<^verbatim>\<open>2/7\<close> and the two sums in double precision.\<close>

lemma fdiv_3_7: "fdiv 3 7 = 7720456504063707 / 2 ^ 54"
proof -
  have "round_double (3 / 7) = of_int (round_half_even ((3 / 7) * 2 ^ 54)) / 2 ^ 54"
    by (rule round_double_up) simp_all
  also have "round_half_even ((3 / 7) * 2 ^ 54) = 7720456504063707"
    by (simp add: round_half_even_def Let_def)
  finally show ?thesis by (simp add: fdiv_def)
qed

lemma fdiv_2_7: "fdiv 2 7 = 5146971002709138 / 2 ^ 54"
proof -
  have "round_double (2 / 7) = of_int (round_half_even ((2 / 7) * 2 ^ 54)) / 2 ^ 54"
    by (rule round_double_up) simp_all
  also have "round_half_even ((2 / 7) * 2 ^ 54) = 5146971002709138"
    by (simp add: round_half_even_def Let_def)
  finally show ?thesis by (simp add: fdiv_def)
qed

lemma fmul_3_7: "fmul (7720456504063707 / 2 ^ 54) 1 = 7720456504063707 / 2 ^ 54"
  unfolding fmul_def mult_1_right
  by (rule round_double_exact[where k = 54 and n = 7720456504063707]) simp_all

lemma fmul_2_7: "fmul (5146971002709138 / 2 ^ 54) 1 = 5146971002709138 / 2 ^ 54"
  unfolding fmul_def mult_1_right
  by (rule round_double_exact[where k = 54 and n = 5146971002709138]) simp_all

lemma fadd_eval:
  assumes "0 < x + y" and "2 ^ 52 \<le> (x + y) * 2 ^ k" and "(x + y) * 2 ^ k < 2 ^ 53"
    and "round_half_even ((x + y) * 2 ^ k) = n" and "r = of_int n / 2 ^ k"
  shows "fadd x y = r"
  unfolding fadd_def using round_double_up[OF assms(1,2,3)] by (simp only: assms(4,5))

lemma sum_3_2_2:
  "fadd (fadd (fadd 1 (7720456504063707 / 2 ^ 54)) (5146971002709138 / 2 ^ 54))
     (5146971002709138 / 2 ^ 54) = 2"
proof -
  have a1: "fadd 1 (7720456504063707 / 2 ^ 54) = 6433713753386423 / 2 ^ 52"
    by (rule fadd_eval[where k = 52 and n = 6433713753386423])
      (simp_all add: round_half_even_def Let_def)
  have a2: "fadd (6433713753386423 / 2 ^ 52) (5146971002709138 / 2 ^ 54) =
              7720456504063708 / 2 ^ 52"
    by (rule fadd_eval[where k = 52 and n = 7720456504063708])
      (simp_all add: round_half_even_def Let_def)
  have a3: "fadd (7720456504063708 / 2 ^ 52) (5146971002709138 / 2 ^ 54) = 2"
    by (rule fadd_eval[where k = 51 and n = 4503599627370496])
      (simp_all add: round_half_even_def Let_def)
  show ?thesis by (simp only: a1 a2 a3)
qed

lemma sum_2_3_2:
  "fadd (fadd (fadd 1 (5146971002709138 / 2 ^ 54)) (7720456504063707 / 2 ^ 54))
     (5146971002709138 / 2 ^ 54) = 2"
proof -
  have a1: "fadd 1 (5146971002709138 / 2 ^ 54) = 5790342378047780 / 2 ^ 52"
    by (rule fadd_eval[where k = 52 and n = 5790342378047780])
      (simp_all add: round_half_even_def Let_def)
  have a2: "fadd (5790342378047780 / 2 ^ 52) (7720456504063707 / 2 ^ 54) =
              7720456504063707 / 2 ^ 52"
    by (rule fadd_eval[where k = 52 and n = 7720456504063707])
      (simp_all add: round_half_even_def Let_def)
  have a3: "fadd (7720456504063707 / 2 ^ 52) (5146971002709138 / 2 ^ 54) = 2"
    by (rule fadd_eval[where k = 52 and n = 9007199254740992])
      (simp_all add: round_half_even_def Let_def)
  show ?thesis by (simp only: a1 a2 a3)
qed

lemma sum_2_2_3:
  "fadd (fadd (fadd 1 (5146971002709138 / 2 ^ 54)) (5146971002709138 / 2 ^ 54))
     (7720456504063707 / 2 ^ 54) = 9007199254740991 / 2 ^ 52"
proof -
  have a1: "fadd 1 (5146971002709138 / 2 ^ 54) = 5790342378047780 / 2 ^ 52"
    by (rule fadd_eval[where k = 52 and n = 5790342378047780])
      (simp_all add: round_half_even_def Let_def)
  have a2: "fadd (5790342378047780 / 2 ^ 52) (5146971002709138 / 2 ^ 54) =
              7077085128725064 / 2 ^ 52"
    by (rule fadd_eval[where k = 52 and n = 7077085128725064])
      (simp_all add: round_half_even_def Let_def)
  have a3: "fadd (7077085128725064 / 2 ^ 52) (7720456504063707 / 2 ^ 54) =
              9007199254740991 / 2 ^ 52"
    by (rule fadd_eval[where k = 52 and n = 9007199254740991])
      (simp_all add: round_half_even_def Let_def)
  show ?thesis by (simp only: a1 a2 a3)
qed

lemma cards7:
  "card {''0'', ''1'', ''2'', ''3'', ''4'', ''5'', ''6''} = 7"
  "card {''0'', ''1'', ''2''} = 3" "card {''3'', ''4''} = 2" "card {''5'', ''6''} = 2"
  "card {''0'', ''3'', ''5''} = 3" "card {''1'', ''4''} = 2" "card {''2'', ''6''} = 2"
  by simp_all

lemmas eval7 = foldl.simps snd_conv sum.sel cards7 of_nat_numeral
  cost7_012 cost7_34 cost7_56 cost7_035 cost7_14 cost7_26
  fdiv_3_7 fdiv_2_7 fmul_3_7 fmul_2_7 sum_3_2_2 sum_2_3_2 sum_2_2_3

lemma expected7_sel7_a:
  "expected_cost sel7 it oracle7 {''0'', ''1'', ''2'', ''3'', ''4'', ''5'', ''6''} ''a'' = 2"
  unfolding expected_cost_def partitions7_sel7_a by (simp only: eval7)

lemma expected7_sel7_b:
  "expected_cost sel7 it oracle7 {''0'', ''1'', ''2'', ''3'', ''4'', ''5'', ''6''} ''b'' = 2"
  unfolding expected_cost_def partitions7_sel7_b by (simp only: eval7)

lemma expected7_it7_a:
  "expected_cost it7 it oracle7 {''0'', ''1'', ''2'', ''3'', ''4'', ''5'', ''6''} ''a'' = 2"
  unfolding expected_cost_def partitions7_it7_a by (simp only: eval7)

lemma expected7_it7_b:
  "expected_cost it7 it oracle7 {''0'', ''1'', ''2'', ''3'', ''4'', ''5'', ''6''} ''b'' =
     9007199254740991 / 2 ^ 52"
  unfolding expected_cost_def partitions7_it7_b by (simp only: eval7)

lemma eligible7:
  "eligible sel oracle7 {''0'', ''1'', ''2'', ''3'', ''4'', ''5'', ''6''} ''a''"
  "eligible sel oracle7 {''0'', ''1'', ''2'', ''3'', ''4'', ''5'', ''6''} ''b''"
proof -
  have a: "card (groups oracle7 {''0'', ''1'', ''2'', ''3'', ''4'', ''5'', ''6''} ''a'') = 3"
    by code_simp
  have b: "card (groups oracle7 {''0'', ''1'', ''2'', ''3'', ''4'', ''5'', ''6''} ''b'') = 3"
    by code_simp
  show "eligible sel oracle7 {''0'', ''1'', ''2'', ''3'', ''4'', ''5'', ''6''} ''a''"
    by (simp add: eligible_groups[OF lookups7] attributes7 a)
  show "eligible sel oracle7 {''0'', ''1'', ''2'', ''3'', ''4'', ''5'', ''6''} ''b''"
    by (simp add: eligible_groups[OF lookups7] attributes7 b)
qed

lemma cost_full7:
  "cost it7 oracle7 (set (object_ids oracle7)) = Inr (9007199254740991 / 2 ^ 52)"
proof -
  have ok: "lookups_ok oracle7 {''0'', ''1'', ''2'', ''3'', ''4'', ''5'', ''6''}"
    by (simp add: lookups7)
  have fin: "finite {''0'', ''1'', ''2'', ''3'', ''4'', ''5'', ''6''}" by simp
  show ?thesis unfolding full7
    by (simp add: cost_unfold attributes7 cost_body_eval[OF ok _ fin] eligible7
        expected7_it7_a expected7_it7_b upd_def float_lt_def)
qed

lemma best_full7:
  "best_attribute sel7 it7 oracle7 (set (object_ids oracle7)) = Inr (Some ''a'')"
proof -
  have ok: "lookups_ok oracle7 {''0'', ''1'', ''2'', ''3'', ''4'', ''5'', ''6''}"
    by (simp add: lookups7)
  have fin: "finite {''0'', ''1'', ''2'', ''3'', ''4'', ''5'', ''6''}" by simp
  show ?thesis unfolding full7
    by (simp add: best_attribute_unfold attributes7 best_body_eval[OF ok _ fin] eligible7
        expected7_sel7_a expected7_sel7_b float_lt_def)
qed

subsection \<open>The recurrence of the cost\<close>

text \<open>
  Claim C1. On an oracle built from a table with uniform attribute keys, the cost of every
  candidate set drawn from the table satisfies the recurrence of the dynamic program: it is
  0 for a set of at most one object; it is 0 when no attribute is eligible; otherwise it is
  the minimum, over the eligible attributes, of the expected cost as the loop computes it:
  1.0, to which are added, for the groups of the partition one after the other, the size of
  the group divided by the size of the set, times the cost of the group, where every
  quotient, product and sum is rounded to double precision. This is the Bellman recurrence
  up to the rounding; in exact arithmetic the equation does not hold.
\<close>

theorem cost_bellman:
  assumes "KaryOracle_init t = Inr orc" and "uniform_table t"
    and "ids \<subseteq> set (object_ids orc)"
  shows "cost it orc ids =
           Inr (if card ids \<le> 1 then 0
                else if {a \<in> set (attributes orc). eligible it orc ids a} = {} then 0
                else Min (expected_cost it it orc ids ` {a \<in> set (attributes orc). eligible it orc ids a}))"
proof -
  have "lookups_ok orc ids" using assms by (rule init_lookups_ok)
  then show ?thesis using cost_char by blast
qed

theorem cost_bellman_witness:
  "\<forall>it.
     KaryOracle_init table4 = Inr oracle4 \<and> uniform_table table4 \<and>
      cost it oracle4 (set (object_ids oracle4)) =
        Inr (if card (set (object_ids oracle4)) \<le> 1 then 0
             else if {a \<in> set (attributes oracle4). eligible it oracle4 (set (object_ids oracle4)) a} = {}
             then 0
             else Min (expected_cost it it oracle4 (set (object_ids oracle4)) `
                    {a \<in> set (attributes oracle4). eligible it oracle4 (set (object_ids oracle4)) a}))"
  (is "\<forall>it. ?P it")
proof (intro allI)
  fix it :: iteration
  have "set (object_ids oracle4) \<subseteq> set (object_ids oracle4)" by (rule subset_refl)
  from cost_bellman[OF init_table4 uniform_table4 this] init_table4 uniform_table4
  show "?P it" by blast
qed

text \<open>
  The expected cost of an attribute as the specification writes it, \<open>1 + \<Sum> (|S_v| / |S|) *
  Cost(S_v)\<close> over the groups of the partition, in exact arithmetic on the costs that the
  oracle computes for the groups.
\<close>

definition expected_cost_exact :: "iteration \<Rightarrow> KaryOracle \<Rightarrow> string set \<Rightarrow> string \<Rightarrow> real" where
  "expected_cost_exact it orc ids attr =
     1 + (\<Sum>g\<in>groups orc ids attr.
            real (card g) / real (card ids) * projr (cost it orc g))"

lemma expected_cost_exact_groups:
  assumes "\<forall>g\<in>groups orc ids attr. card g = k \<and> cost it orc g = Inr c"
  shows "expected_cost_exact it orc ids attr =
           1 + real (card (groups orc ids attr)) * (real k / real (card ids) * c)"
proof -
  have "(\<Sum>g\<in>groups orc ids attr. real (card g) / real (card ids) * projr (cost it orc g)) =
        (\<Sum>g\<in>groups orc ids attr. real k / real (card ids) * c)"
    using assms by (intro sum.cong) simp_all
  then show ?thesis by (simp add: expected_cost_exact_def)
qed

lemma eligible_set6:
  "{a \<in> set (attributes oracle6). eligible it oracle6 (set (object_ids oracle6)) a} = {''a'', ''b''}"
  unfolding full6 using eligible6_a eligible6_b by (auto simp: attributes6)

lemma exact6_a: "expected_cost_exact it oracle6 (set (object_ids oracle6)) ''a'' = 2"
proof -
  have "expected_cost_exact it oracle6 {''0'', ''1'', ''2'', ''3'', ''4'', ''5''} ''a'' =
          1 + real (card (groups oracle6 {''0'', ''1'', ''2'', ''3'', ''4'', ''5''} ''a'')) *
              (real 3 / real (card {''0'', ''1'', ''2'', ''3'', ''4'', ''5''}) * 1)"
    by (rule expected_cost_exact_groups) (simp add: groups6_a cost6_012 cost6_345)
  then show ?thesis unfolding full6 by (simp add: card_groups6_a)
qed

lemma exact6_b: "expected_cost_exact it oracle6 (set (object_ids oracle6)) ''b'' = 2"
proof -
  have "expected_cost_exact it oracle6 {''0'', ''1'', ''2'', ''3'', ''4'', ''5''} ''b'' =
          1 + real (card (groups oracle6 {''0'', ''1'', ''2'', ''3'', ''4'', ''5''} ''b'')) *
              (real 2 / real (card {''0'', ''1'', ''2'', ''3'', ''4'', ''5''}) * 1)"
    by (rule expected_cost_exact_groups) (simp add: groups6_b cost6_03 cost6_14 cost6_25)
  then show ?thesis unfolding full6 by (simp add: card_groups6_b)
qed

text \<open>
  The recurrence of claim C1 in exact arithmetic fails on the table of six objects: both
  attributes are eligible at the full set and the exact expected cost of either is 2, but
  the cost that the oracle computes is \<open>2 - 1 / 2 ^ 52\<close>, the double \<^verbatim>\<open>1.9999999999999998\<close>.
\<close>

theorem cost_bellman_exact_fails:
  "\<forall>it.
     KaryOracle_init table6 = Inr oracle6 \<and> uniform_table table6 \<and>
     \<not> card (set (object_ids oracle6)) \<le> 1 \<and>
     {a \<in> set (attributes oracle6). eligible it oracle6 (set (object_ids oracle6)) a} =
       {''a'', ''b''} \<and>
     Min (expected_cost_exact it oracle6 (set (object_ids oracle6)) `
            {a \<in> set (attributes oracle6). eligible it oracle6 (set (object_ids oracle6)) a}) = 2 \<and>
     cost it oracle6 (set (object_ids oracle6)) = Inr (2 - 1 / 2 ^ 52)"
proof (intro allI conjI)
  fix it :: iteration
  show "KaryOracle_init table6 = Inr oracle6" by (rule init_table6)
  show "uniform_table table6" by (rule uniform_table6)
  show "\<not> card (set (object_ids oracle6)) \<le> 1" by (simp add: full6)
  show "{a \<in> set (attributes oracle6). eligible it oracle6 (set (object_ids oracle6)) a} =
       {''a'', ''b''}" by (rule eligible_set6)
  show "Min (expected_cost_exact it oracle6 (set (object_ids oracle6)) `
            {a \<in> set (attributes oracle6). eligible it oracle6 (set (object_ids oracle6)) a}) = 2"
    by (simp add: eligible_set6 exact6_a exact6_b)
  show "cost it oracle6 (set (object_ids oracle6)) = Inr (2 - 1 / 2 ^ 52)"
    by (simp add: cost_full6)
qed

subsection \<open>The zero cost\<close>

text \<open>
  Claim C6. The cost of a candidate set is 0 exactly when the set has at most one object or
  no attribute is eligible; and when some attribute is eligible the cost is at least 1.
\<close>

theorem cost_zero_iff:
  assumes "KaryOracle_init t = Inr orc" and "uniform_table t"
    and "ids \<subseteq> set (object_ids orc)"
  shows "(cost it orc ids = Inr 0 \<longleftrightarrow>
            card ids \<le> 1 \<or> (\<forall>a\<in>set (attributes orc). \<not> eligible it orc ids a)) \<and>
         ((\<exists>a\<in>set (attributes orc). eligible it orc ids a) \<longrightarrow>
            (\<exists>c. cost it orc ids = Inr c \<and> 1 \<le> c))"
proof -
  have ok: "lookups_ok orc ids" using assms by (rule init_lookups_ok)
  have fin: "finite ids" using assms(3) by (rule finite_candidates)
  let ?A = "{a \<in> set (attributes orc). eligible it orc ids a}"
  have ch: "cost it orc ids = Inr (if card ids \<le> 1 then 0 else if ?A = {} then 0
              else Min (expected_cost it it orc ids ` ?A))"
    using cost_char[OF ok] by blast
  show ?thesis
  proof (cases "\<exists>a\<in>set (attributes orc). eligible it orc ids a")
    case True
    then obtain a where a: "a \<in> set (attributes orc)" "eligible it orc ids a" by blast
    have big: "\<not> card ids \<le> 1" using eligible_card[OF fin a(2)] .
    from cost_eligible_ge1[OF ok big a] obtain c where c: "cost it orc ids = Inr c" "1 \<le> c"
      by blast
    then have "cost it orc ids \<noteq> Inr 0" by auto
    with True big c show ?thesis by blast
  next
    case False
    then have "?A = {}" by blast
    with ch have "cost it orc ids = Inr 0" by simp
    with False show ?thesis by blast
  qed
qed

theorem cost_zero_iff_witness:
  "\<forall>it.
     KaryOracle_init table4 = Inr oracle4 \<and> uniform_table table4 \<and>
      eligible it oracle4 (set (object_ids oracle4)) ''a'' \<and>
      cost it oracle4 (set (object_ids oracle4)) \<noteq> Inr 0 \<and>
      (\<exists>c. cost it oracle4 (set (object_ids oracle4)) = Inr c \<and> 1 \<le> c)"
  (is "\<forall>it. ?P it")
proof (intro allI)
  fix it :: iteration
  have sub: "set (object_ids oracle4) \<subseteq> set (object_ids oracle4)" by (rule subset_refl)
  have a: "''a'' \<in> set (attributes oracle4)" by (simp add: oracle4_def)
  have big: "\<not> card (set (object_ids oracle4)) \<le> 1" by (simp add: card_full4)
  from cost_zero_iff[OF init_table4 uniform_table4 sub] a eligible_full4_a big
  have "cost it oracle4 (set (object_ids oracle4)) \<noteq> Inr 0"
    and "\<exists>c. cost it oracle4 (set (object_ids oracle4)) = Inr c \<and> 1 \<le> c"
    by blast+
  with init_table4 uniform_table4 eligible_full4_a show "?P it" by blast
qed

subsection \<open>The tie-break\<close>



subsection \<open>The selector and the cost\<close>

text \<open>
  The selector reads the order of the iteration at the candidate set it is given only: when
  that is the order under which the cost of the set is computed, both loops add the same
  terms in the same order.
\<close>

lemma partitions_same_iter:
  "set_iter sel ids = set_iter it ids \<Longrightarrow> partitions sel orc ids attr = partitions it orc ids attr"
  by (simp add: partitions_def)

lemma best_attribute_same_iter:
  assumes "set_iter sel ids = set_iter it ids"
  shows "best_attribute sel it orc ids = best_attribute it it orc ids"
    and "expected_cost sel it orc ids attr = expected_cost it it orc ids attr"
    and "eligible sel orc ids attr = eligible it orc ids attr"
proof -
  have p: "partitions sel orc ids a = partitions it orc ids a" for a
    using assms by (rule partitions_same_iter)
  show "best_attribute sel it orc ids = best_attribute it it orc ids"
    unfolding best_attribute_def p ..
  show "expected_cost sel it orc ids attr = expected_cost it it orc ids attr"
    unfolding expected_cost_def p ..
  show "eligible sel orc ids attr = eligible it orc ids attr"
    unfolding eligible_def p ..
qed

text \<open>
  Claim C9. The attribute selector always returns; it returns no attribute exactly when the
  candidate set has at most one object or no attribute is eligible; the attribute it
  returns is eligible; and when the selector visits the candidate set in the order under
  which the cost of the set is computed, as it does when both are given the same
  frozenset, the expected cost that it computes for that attribute is the cost of the set,
  bit for bit.
\<close>

theorem best_attribute_realises_cost:
  assumes "KaryOracle_init t = Inr orc" and "uniform_table t"
    and "ids \<subseteq> set (object_ids orc)"
  shows "(\<exists>r. best_attribute sel it orc ids = Inr r) \<and>
         (best_attribute sel it orc ids = Inr None \<longleftrightarrow>
            card ids \<le> 1 \<or> (\<forall>a\<in>set (attributes orc). \<not> eligible sel orc ids a)) \<and>
         (\<forall>a. best_attribute sel it orc ids = Inr (Some a) \<longrightarrow>
            a \<in> set (attributes orc) \<and> eligible sel orc ids a \<and>
            (set_iter sel ids = set_iter it ids \<longrightarrow>
               cost it orc ids = Inr (expected_cost sel it orc ids a)))"
proof -
  have ok: "lookups_ok orc ids" using assms by (rule init_lookups_ok)
  show ?thesis
  proof (cases "card ids \<le> 1")
    case True
    then have "best_attribute sel it orc ids = Inr None" by (simp add: best_attribute_unfold)
    with True show ?thesis by simp
  next
    case False
    have "a \<in> set (attributes orc) \<and> eligible sel orc ids a \<and>
          (set_iter sel ids = set_iter it ids \<longrightarrow>
             cost it orc ids = Inr (expected_cost sel it orc ids a))"
      if b: "best_attribute sel it orc ids = Inr (Some a)" for a
    proof -
      from best_attribute_Some[OF ok False b] obtain pre post where
        p: "attributes orc = pre @ a # post" "eligible sel orc ids a"
          "\<forall>x\<in>set (attributes orc). eligible sel orc ids x \<longrightarrow>
               expected_cost sel it orc ids a \<le> expected_cost sel it orc ids x"
        by blast
      have a: "a \<in> set (attributes orc)" using p(1) by simp
      have "cost it orc ids = Inr (expected_cost sel it orc ids a)"
        if same: "set_iter sel ids = set_iter it ids"
      proof -
        note s = best_attribute_same_iter(2,3)[OF same]
        have "eligible it orc ids a" using p(2) by (simp only: s)
        moreover have "\<forall>x\<in>set (attributes orc). eligible it orc ids x \<longrightarrow>
               expected_cost it it orc ids a \<le> expected_cost it it orc ids x"
          using p(3) by (simp only: s)
        ultimately have "cost it orc ids = Inr (expected_cost it it orc ids a)"
          by (rule cost_eq_minimal[OF ok False a])
        then show ?thesis by (simp only: s)
      qed
      with a p(2) show ?thesis by blast
    qed
    with best_attribute_total[where sel=sel and it=it, OF ok]
      best_attribute_None_iff[where sel=sel and it=it, OF ok False] False
    show ?thesis by blast
  qed
qed

theorem best_attribute_realises_cost_witness:
  "\<forall>it.
     KaryOracle_init table4 = Inr oracle4 \<and> uniform_table table4 \<and>
     best_attribute it it oracle4 (set (object_ids oracle4)) = Inr (Some ''a'') \<and>
     set_iter it (set (object_ids oracle4)) = set_iter it (set (object_ids oracle4)) \<and>
     cost it oracle4 (set (object_ids oracle4)) =
       Inr (expected_cost it it oracle4 (set (object_ids oracle4)) ''a'')"
  (is "\<forall>it. ?P it")
proof (intro allI)
  fix it :: iteration
  have sub: "set (object_ids oracle4) \<subseteq> set (object_ids oracle4)" by (rule subset_refl)
  from best_attribute_realises_cost[where sel=it and it=it, OF init_table4 uniform_table4 sub]
    best_full4[of it it]
  have "cost it oracle4 (set (object_ids oracle4)) =
     Inr (expected_cost it it oracle4 (set (object_ids oracle4)) ''a'')" by blast
  with init_table4 uniform_table4 best_full4[of it it] show "?P it" by blast
qed

lemma sum_three:
  fixes f :: "'a \<Rightarrow> real"
  shows "A \<notin> {B, C} \<Longrightarrow> B \<notin> {C} \<Longrightarrow> sum f {A, B, C} = f A + (f B + f C)"
  by simp

lemma exact7_a: "expected_cost_exact it oracle7 (set (object_ids oracle7)) ''a'' = 2"
proof -
  have g: "groups oracle7 {''0'', ''1'', ''2'', ''3'', ''4'', ''5'', ''6''} ''a'' =
             {{''0'', ''1'', ''2''}, {''3'', ''4''}, {''5'', ''6''}}"
    by code_simp
  have d: "({''0'', ''1'', ''2''} :: string set) \<notin> {{''3'', ''4''}, {''5'', ''6''}}"
    "({''3'', ''4''} :: string set) \<notin> {{''5'', ''6''}}"
    by code_simp+
  have "(\<Sum>g\<in>{{''0'', ''1'', ''2''}, {''3'', ''4''}, {''5'', ''6''}}.
           real (card g) / real (card {''0'', ''1'', ''2'', ''3'', ''4'', ''5'', ''6''}) *
           projr (cost it oracle7 g)) =
        real (card {''0'', ''1'', ''2''}) / real (card {''0'', ''1'', ''2'', ''3'', ''4'', ''5'', ''6''}) *
           projr (cost it oracle7 {''0'', ''1'', ''2''}) +
        (real (card {''3'', ''4''}) / real (card {''0'', ''1'', ''2'', ''3'', ''4'', ''5'', ''6''}) *
           projr (cost it oracle7 {''3'', ''4''}) +
         real (card {''5'', ''6''}) / real (card {''0'', ''1'', ''2'', ''3'', ''4'', ''5'', ''6''}) *
           projr (cost it oracle7 {''5'', ''6''}))"
    using d by (rule sum_three)
  also have "\<dots> = 1"
    by (simp only: cards7 cost7_012 cost7_34 cost7_56 sum.sel of_nat_numeral)
  finally show ?thesis
    unfolding full7 expected_cost_exact_def g by simp
qed

text \<open>
  Without the condition on the order the two values of claim C9 can differ. On the table of
  seven objects, let the cost of the full set be computed under the order \<open>it7\<close> and let the
  selector visit the full set in the order \<open>sel7\<close>: the selector returns attribute a, for
  which it computes the expected cost 2.0, which is also the value of \<open>1 + \<Sum> (|S_v| / |S|) *
  Cost(S_v)\<close> in exact arithmetic, and the cost of the set is \<^verbatim>\<open>1.9999999999999998\<close>.
\<close>

theorem selector_cost_differs:
  "KaryOracle_init table7 = Inr oracle7 \<and> uniform_table table7 \<and>
   best_attribute sel7 it7 oracle7 (set (object_ids oracle7)) = Inr (Some ''a'') \<and>
   expected_cost sel7 it7 oracle7 (set (object_ids oracle7)) ''a'' = 2 \<and>
   expected_cost_exact it7 oracle7 (set (object_ids oracle7)) ''a'' = 2 \<and>
   cost it7 oracle7 (set (object_ids oracle7)) = Inr (2 - 1 / 2 ^ 52)"
proof (intro conjI)
  show "KaryOracle_init table7 = Inr oracle7" by (rule init_table7)
  show "uniform_table table7" by (rule uniform_table7)
  show "best_attribute sel7 it7 oracle7 (set (object_ids oracle7)) = Inr (Some ''a'')"
    by (rule best_full7)
  show "expected_cost sel7 it7 oracle7 (set (object_ids oracle7)) ''a'' = 2"
    unfolding full7 by (rule expected7_sel7_a)
  show "expected_cost_exact it7 oracle7 (set (object_ids oracle7)) ''a'' = 2"
    by (rule exact7_a)
  show "cost it7 oracle7 (set (object_ids oracle7)) = Inr (2 - 1 / 2 ^ 52)"
    by (simp add: cost_full7)
qed

subsection \<open>The trajectory of the concrete scenario\<close>

lemma target0_in_table4: "map_of (table oracle4) ''0'' \<noteq> None"
  by code_simp

lemma get4_0a: "table_get oracle4 ''0'' ''a'' = Inr ''x''"
  by code_simp

lemma get4_0b: "table_get oracle4 ''0'' ''b'' = Inr ''p''"
  by code_simp

lemma lookups4_a: "\<not> (\<exists>obj_id\<in>set (object_ids oracle4). isl (table_get oracle4 obj_id ''a''))"
  by code_simp

lemma filter4_a:
  "{obj_id \<in> set (object_ids oracle4). table_get oracle4 obj_id ''a'' = Inr ''x''} = set [''0'', ''1'']"
  by code_simp

lemma card4_01: "card (set [''0'', ''1''] :: string set) = 2"
  by code_simp

lemma lookups4_b: "\<not> (\<exists>obj_id\<in>set [''0'', ''1'']. isl (table_get oracle4 obj_id ''b''))"
  by code_simp

lemma filter4_b:
  "{obj_id \<in> set [''0'', ''1'']. table_get oracle4 obj_id ''b'' = Inr ''p''} = set [''0'']"
  by code_simp

lemma card4_0: "card (set [''0''] :: string set) = 1"
  by code_simp

lemma log2_2: "log2 2 = Inr 1"
  by (simp add: log2_def)

lemma log2_1: "log2 1 = Inr 0"
  by (simp add: log2_def)

lemma step4_1:
  "trajectory_step sel it oracle4 ''0'' (set (object_ids oracle4), []) = Inr (set [''0'', ''1''], [1])"
  unfolding trajectory_step_def prod.case Let_def
  by (simp only: card_full4 best_full4 get4_0a lookups4_a filter4_a card4_01 log2_2
        sum.case option.case if_False append_Nil) simp

lemma step4_2:
  "trajectory_step sel it oracle4 ''0'' (set [''0'', ''1''], [1]) = Inr (set [''0''], [1, 0])"
  unfolding trajectory_step_def prod.case Let_def
  by (simp only: card4_01 best4_01 get4_0b lookups4_b filter4_b card4_0 log2_1
        sum.case option.case if_False) simp

lemma step4_3:
  "trajectory_step sel it oracle4 ''0'' (set [''0''], [1, 0]) = Inr (set [''0''], [1, 0, 0])"
  unfolding trajectory_step_def prod.case
  by (simp only: card4_0) simp

lemma trajectory4: "trajectory_for_target sel it oracle4 ''0'' 3 = Inr [1, 0, 0]"
proof -
  have n: "nat 3 = Suc (Suc (Suc 0))" by simp
  have "trajectory_loop sel it oracle4 ''0'' (nat 3) (set (object_ids oracle4), []) =
          Inr (set [''0''], [1, 0, 0])"
    unfolding n by (simp only: trajectory_loop.simps step4_1 step4_2 step4_3 sum.case)
  then show ?thesis
    unfolding trajectory_for_target_def using target0_in_table4 by simp
qed

text \<open>
  Claim C3. On the table of four objects and two binary attributes, the cost of the full
  candidate set is 2, the selector returns attribute a at the full set, and the trajectory
  of target 0 over three steps is 1, 0, 0.
\<close>

theorem scenario4:
  "KaryOracle_init table4 = Inr oracle4 \<and>
   cost it oracle4 (set (object_ids oracle4)) = Inr 2 \<and>
   expected_cost sel it oracle4 (set (object_ids oracle4)) ''a'' =
     expected_cost sel it oracle4 (set (object_ids oracle4)) ''b'' \<and>
   best_attribute sel it oracle4 (set (object_ids oracle4)) = Inr (Some ''a'') \<and>
   trajectory_for_target sel it oracle4 ''0'' 3 = Inr [1, 0, 0]"
proof -
  have "expected_cost sel it oracle4 (set (object_ids oracle4)) ''a'' =
        expected_cost sel it oracle4 (set (object_ids oracle4)) ''b''"
    unfolding full4 by (simp only: expected4_a expected4_b)
  with init_table4 cost_full4 best_full4 trajectory4 show ?thesis by blast
qed

theorem scenario4_witness:
  "\<forall>sel it.
     set (object_ids oracle4) = {''0'', ''1'', ''2'', ''3''} \<and>
      projr (cost it oracle4 {''0'', ''1'', ''2'', ''3''}) = 2 \<and>
      projr (trajectory_for_target sel it oracle4 ''0'' 3) ! 0 = 1"
  (is "\<forall>sel it. ?P sel it")
proof (intro allI)
  fix sel it :: iteration
  have s: "set (object_ids oracle4) = {''0'', ''1'', ''2'', ''3''}" by (simp add: oracle4_def)
  from scenario4[where sel=sel and it=it] have "cost it oracle4 (set (object_ids oracle4)) = Inr 2"
    and "trajectory_for_target sel it oracle4 ''0'' 3 = Inr [1, 0, 0]" by blast+
  then show "?P sel it" unfolding s by (simp add: s)
qed

subsection \<open>Properties of trajectories\<close>

text \<open>
  Claim C4. For a target of the table and a number of steps that is not negative, the
  trajectory has exactly that many entries; with 0 steps it is empty.
\<close>

theorem trajectory_length:
  assumes "KaryOracle_init t = Inr orc" and "uniform_table t"
    and "map_of (table orc) target_id \<noteq> None" and "0 \<le> max_steps"
  shows "(\<exists>traj. trajectory_for_target sel it orc target_id max_steps = Inr traj \<and>
            int (length traj) = max_steps) \<and>
         trajectory_for_target sel it orc target_id 0 = Inr []"
proof -
  from trajectory_run[where sel=sel and it=it, OF assms(1-3), of "nat max_steps"] obtain ids entropies where
    "trajectory_loop sel it orc target_id (nat max_steps) (set (object_ids orc), []) = Inr (ids, entropies)"
    "length entropies = nat max_steps" by blast
  with assms(3,4) have "trajectory_for_target sel it orc target_id max_steps = Inr entropies \<and>
      int (length entropies) = max_steps"
    by (simp add: trajectory_for_target_def)
  moreover have "trajectory_for_target sel it orc target_id 0 = Inr []"
    using assms(3) by (simp add: trajectory_for_target_def)
  ultimately show ?thesis by blast
qed

theorem trajectory_length_witness:
  "\<forall>sel it.
     KaryOracle_init table4 = Inr oracle4 \<and> uniform_table table4 \<and>
      map_of (table oracle4) ''0'' \<noteq> None \<and> (0::int) \<le> 3 \<and>
      (\<exists>traj. trajectory_for_target sel it oracle4 ''0'' 3 = Inr traj \<and> int (length traj) = 3) \<and>
      trajectory_for_target sel it oracle4 ''0'' 0 = Inr []"
  (is "\<forall>sel it. ?P sel it")
proof (intro allI)
  fix sel it :: iteration
  have le: "(0::int) \<le> 3" by simp
  from trajectory_length[OF init_table4 uniform_table4 target0_in_table4 le]
    init_table4 uniform_table4 target0_in_table4 le
  show "?P sel it" by blast
qed

text \<open>
  Claim C5. In a trajectory that is returned, an entry 0 is followed by entries 0 only; and
  a step of the loop never enlarges the candidate set.
\<close>

theorem trajectory_zero_absorbing:
  assumes "trajectory_for_target sel it orc target_id max_steps = Inr traj"
  shows "(\<forall>i j. i < j \<and> j < length traj \<and> traj ! i = 0 \<longrightarrow> traj ! j = 0) \<and>
         (\<forall>ids entropies ids' entropies'.
            trajectory_step sel it orc target_id (ids, entropies) = Inr (ids', entropies') \<longrightarrow>
            ids' \<subseteq> ids)"
proof -
  from assms obtain ids where
    l: "trajectory_loop sel it orc target_id (nat max_steps) (set (object_ids orc), []) = Inr (ids, traj)"
    by (auto simp: trajectory_for_target_def split: if_splits sum.splits)
  from loop_result[OF l] have z: "zero_absorbing traj" by auto
  have "\<forall>i j. i < j \<and> j < length traj \<and> traj ! i = 0 \<longrightarrow> traj ! j = 0"
    using zero_absorbing_nth[OF z] by blast
  moreover have "\<forall>ids entropies ids' entropies'.
            trajectory_step sel it orc target_id (ids, entropies) = Inr (ids', entropies') \<longrightarrow>
            ids' \<subseteq> ids"
    using step_result by blast
  ultimately show ?thesis by blast
qed

theorem trajectory_zero_absorbing_witness:
  "\<forall>sel it.
     trajectory_for_target sel it oracle4 ''0'' 3 = Inr [1, 0, 0] \<and>
      (1::nat) < 2 \<and> 2 < length [1, 0, 0 :: real] \<and> [1, 0, 0 :: real] ! 1 = 0 \<and>
      [1, 0, 0 :: real] ! 2 = 0 \<and> set [''0'', ''1''] \<subseteq> set (object_ids oracle4)"
  (is "\<forall>sel it. ?P sel it")
proof (intro allI)
  fix sel it :: iteration
  from trajectory_zero_absorbing[OF trajectory4]
  have a: "\<forall>i j. i < j \<and> j < length [1, 0, 0 :: real] \<and> [1, 0, 0 :: real] ! i = 0 \<longrightarrow>
              [1, 0, 0 :: real] ! j = 0"
    and b: "\<forall>ids entropies ids' entropies'.
            trajectory_step sel it oracle4 ''0'' (ids, entropies) = Inr (ids', entropies') \<longrightarrow>
            ids' \<subseteq> ids"
    by blast+
  have h: "(1::nat) < 2" "2 < length [1, 0, 0 :: real]" "[1, 0, 0 :: real] ! 1 = 0"
    by simp_all
  from a h have "[1, 0, 0 :: real] ! 2 = 0" by blast
  moreover from b step4_1 have "set [''0'', ''1''] \<subseteq> set (object_ids oracle4)" by blast
  ultimately show "?P sel it" using trajectory4 h by blast
qed

text \<open>
  Claim C8. On a table with uniform attribute keys and for a target of the table, the loop
  run for any number of steps returns, without an exception, a state whose candidate set
  holds the target; so the set is not empty, its size, to which \<^verbatim>\<open>log2\<close> is applied, is
  positive, and every entry of the trajectory is a real number that is not negative.
\<close>

theorem target_stays_candidate:
  assumes "KaryOracle_init t = Inr orc" and "uniform_table t"
    and "map_of (table orc) target_id \<noteq> None"
  shows "(\<forall>k. \<exists>ids entropies.
            trajectory_loop sel it orc target_id k (set (object_ids orc), []) = Inr (ids, entropies) \<and>
            target_id \<in> ids \<and> ids \<noteq> {} \<and> 0 < card ids \<and>
            log2 (card ids) = Inr (log 2 (real (card ids))) \<and>
            (\<forall>x\<in>set entropies. 0 \<le> x)) \<and>
         (\<exists>traj. trajectory_for_target sel it orc target_id max_steps = Inr traj \<and>
            (\<forall>x\<in>set traj. 0 \<le> x))"
proof -
  have run: "\<exists>ids entropies.
            trajectory_loop sel it orc target_id k (set (object_ids orc), []) = Inr (ids, entropies) \<and>
            target_id \<in> ids \<and> ids \<noteq> {} \<and> 0 < card ids \<and>
            log2 (card ids) = Inr (log 2 (real (card ids))) \<and>
            (\<forall>x\<in>set entropies. 0 \<le> x)" for k
  proof -
    from trajectory_run[where sel=sel and it=it, OF assms, of k] obtain ids entropies where
      l: "trajectory_loop sel it orc target_id k (set (object_ids orc), []) = Inr (ids, entropies)"
      and m: "target_id \<in> ids" and sub: "ids \<subseteq> set (object_ids orc)"
      and nn: "\<forall>x\<in>set entropies. 0 \<le> x"
      by blast
    have "finite ids" using sub by (rule finite_candidates)
    with m have c: "0 < card ids" by (auto simp: card_gt_0_iff)
    then have "log2 (card ids) = Inr (log 2 (real (card ids)))" by (simp add: log2_def)
    with l m c nn show ?thesis by blast
  qed
  from run[of "nat max_steps"] obtain ids entropies where
    "trajectory_loop sel it orc target_id (nat max_steps) (set (object_ids orc), []) = Inr (ids, entropies)"
    "\<forall>x\<in>set entropies. 0 \<le> x" by blast
  with assms(3) have "trajectory_for_target sel it orc target_id max_steps = Inr entropies \<and>
      (\<forall>x\<in>set entropies. 0 \<le> x)"
    by (simp add: trajectory_for_target_def)
  with run show ?thesis by blast
qed

theorem target_stays_candidate_witness:
  "\<forall>sel it.
     KaryOracle_init table4 = Inr oracle4 \<and> uniform_table table4 \<and>
      map_of (table oracle4) ''0'' \<noteq> None \<and>
      (\<exists>ids entropies.
         trajectory_loop sel it oracle4 ''0'' 1 (set (object_ids oracle4), []) = Inr (ids, entropies) \<and>
         ''0'' \<in> ids \<and> 0 < card ids) \<and>
      (\<exists>traj. trajectory_for_target sel it oracle4 ''0'' 3 = Inr traj)"
  (is "\<forall>sel it. ?P sel it")
proof (intro allI)
  fix sel it :: iteration
  from target_stays_candidate[where sel=sel and it=it and max_steps=3, OF init_table4 uniform_table4 target0_in_table4]
  have "\<exists>ids entropies.
      trajectory_loop sel it oracle4 ''0'' 1 (set (object_ids oracle4), []) = Inr (ids, entropies) \<and>
      ''0'' \<in> ids \<and> 0 < card ids"
    and "\<exists>traj. trajectory_for_target sel it oracle4 ''0'' 3 = Inr traj"
    by blast+
  with init_table4 uniform_table4 target0_in_table4 show "?P sel it" by blast
qed

subsection \<open>Errors\<close>

lemma target9_not_in_table4: "map_of (table oracle4) ''9'' = None"
  by code_simp

text \<open>
  Claim C7. The constructor raises on the empty table; \<^verbatim>\<open>trajectory_for_target\<close> raises the
  error of the unknown target when the target is not a key of the table, and returns a
  trajectory when it is one (on a table with uniform attribute keys);
  \<^verbatim>\<open>mean_trajectory\<close> raises on the empty list of targets. An error is the whole result
  of the call.
\<close>

theorem errors_raised:
  "KaryOracle_init [] = Inl ValueError_empty_table \<and>
   (map_of (table orc) target_id = None \<longrightarrow>
      trajectory_for_target sel it orc target_id max_steps = Inl (KeyError_unknown_target target_id)) \<and>
   (KaryOracle_init t = Inr orc \<and> uniform_table t \<and> map_of (table orc) target_id \<noteq> None \<longrightarrow>
      (\<exists>traj. trajectory_for_target sel it orc target_id max_steps = Inr traj)) \<and>
   mean_trajectory sel it orc [] max_steps = Inl ValueError_no_targets"
proof -
  have "KaryOracle_init [] = Inl ValueError_empty_table" by (simp add: KaryOracle_init_def)
  moreover have "map_of (table orc) target_id = None \<longrightarrow>
      trajectory_for_target sel it orc target_id max_steps = Inl (KeyError_unknown_target target_id)"
    by (simp add: trajectory_for_target_def)
  moreover have "\<exists>traj. trajectory_for_target sel it orc target_id max_steps = Inr traj"
    if "KaryOracle_init t = Inr orc" "uniform_table t" "map_of (table orc) target_id \<noteq> None"
  proof -
    from trajectory_run[where sel=sel and it=it, OF that, of "nat max_steps"] that(3) show ?thesis
      by (auto simp: trajectory_for_target_def)
  qed
  moreover have "mean_trajectory sel it orc [] max_steps = Inl ValueError_no_targets"
    by (simp add: mean_trajectory_def)
  ultimately show ?thesis by blast
qed

theorem errors_raised_witness:
  "\<forall>sel it.
     map_of (table oracle4) ''9'' = None \<and>
      trajectory_for_target sel it oracle4 ''9'' 3 = Inl (KeyError_unknown_target ''9'') \<and>
      KaryOracle_init table4 = Inr oracle4 \<and> uniform_table table4 \<and>
      map_of (table oracle4) ''0'' \<noteq> None \<and>
      (\<exists>traj. trajectory_for_target sel it oracle4 ''0'' 3 = Inr traj) \<and>
      mean_trajectory sel it oracle4 [] 3 = Inl ValueError_no_targets"
  (is "\<forall>sel it. ?P sel it")
proof (intro allI)
  fix sel it :: iteration
  from errors_raised[where sel=sel and it=it and orc=oracle4 and target_id="''9''" and max_steps=3 and t=table4] target9_not_in_table4
  have a: "trajectory_for_target sel it oracle4 ''9'' 3 = Inl (KeyError_unknown_target ''9'')"
    and c: "mean_trajectory sel it oracle4 [] 3 = Inl ValueError_no_targets" by blast+
  from errors_raised[where sel=sel and it=it and orc=oracle4 and target_id="''0''" and max_steps=3 and t=table4] init_table4 uniform_table4 target0_in_table4
  have b: "\<exists>traj. trajectory_for_target sel it oracle4 ''0'' 3 = Inr traj" by blast
  from a b c target9_not_in_table4 init_table4 uniform_table4 target0_in_table4
  show "?P sel it" by blast
qed

subsection \<open>The bound on the recursion\<close>

lemma cost_rel_group:
  assumes "lookups_ok orc ids" and "finite ids" and "attr \<in> set (attributes orc)"
    and "\<not> card ids \<le> 1" and "\<not> card (groups orc ids attr) \<le> 1"
    and "g \<in> groups orc ids attr"
  shows "cost_rel (it, orc, g) (it, orc, ids)"
proof -
  obtain parts where parts: "partitions it orc ids attr = Inr parts"
    using partitions_Inr[where it=it, OF assms(1,3)] by blast
  note gr = partitions_groups[OF parts assms(2)]
  from assms(6) have "g \<in> snd ` set parts" by (simp only: gr(1))
  then obtain p where p: "p \<in> set parts" "g = snd p" by (rule imageE)
  have len: "\<not> length parts \<le> 1" using assms(5) gr(2) by simp
  have "cost_rel (it, orc, snd p) (it, orc, ids)"
    by (rule cost_rel.intros(1)[OF refl assms(4,3) parts len p(1)])
  then show ?thesis by (simp only: p(2))
qed

text \<open>
  Claim C10. The cost terminates on every candidate set. On a table with uniform attribute
  keys, every recursive call is on a strictly smaller candidate set with strictly fewer
  eligible attributes, and a chain of recursive calls is no longer than the number of
  attributes.
\<close>

theorem cost_recursion_bounded:
  assumes "KaryOracle_init t = Inr orc" and "uniform_table t"
    and "ids \<subseteq> set (object_ids orc)"
  shows "cost_dom (it, orc, ids) \<and>
         (\<forall>sub. cost_rel (it, orc, sub) (it, orc, ids) \<longrightarrow>
            sub \<subset> ids \<and> card sub < card ids \<and>
            {a \<in> set (attributes orc). eligible it orc sub a} \<subset>
            {a \<in> set (attributes orc). eligible it orc ids a}) \<and>
         (\<forall>chain. call_chain it orc (ids # chain) \<longrightarrow> length chain \<le> length (attributes orc))"
proof -
  have ok: "lookups_ok orc ids" using assms by (rule init_lookups_ok)
  have fin: "finite ids" using assms(3) by (rule finite_candidates)
  have "length chain \<le> length (attributes orc)" if "call_chain it orc (ids # chain)" for chain
  proof -
    have "length chain \<le> card {a \<in> set (attributes orc). eligible it orc ids a}"
      using ok fin that by (rule call_chain_bounded)
    also have "\<dots> \<le> card (set (attributes orc))" by (intro card_mono) auto
    also have "\<dots> \<le> length (attributes orc)" by (rule card_length)
    finally show ?thesis .
  qed
  with cost_dom_all call_fewer_eligible[OF ok fin] show ?thesis by blast
qed

lemma call4_1: "cost_rel (it, oracle4, set [''0'', ''1'']) (it, oracle4, set (object_ids oracle4))"
proof -
  have "cost_rel (it, oracle4, {''0'', ''1''}) (it, oracle4, {''0'', ''1'', ''2'', ''3''})"
  proof (rule cost_rel_group)
    show "lookups_ok oracle4 {''0'', ''1'', ''2'', ''3''}" by (simp add: lookups4)
    show "finite {''0'', ''1'', ''2'', ''3''}" by simp
    show "''a'' \<in> set (attributes oracle4)" by (simp add: attributes4)
    show "\<not> card {''0'', ''1'', ''2'', ''3''} \<le> 1" by simp
    show "\<not> card (groups oracle4 {''0'', ''1'', ''2'', ''3''} ''a'') \<le> 1"
      by (simp add: card_groups4_a)
    show "{''0'', ''1''} \<in> groups oracle4 {''0'', ''1'', ''2'', ''3''} ''a''"
      by (simp add: groups4_a)
  qed
  then show ?thesis by (simp add: full4)
qed

lemma call4_2: "cost_rel (it, oracle4, set [''0'']) (it, oracle4, set [''0'', ''1''])"
proof -
  have g: "groups oracle4 {''0'', ''1''} ''b'' = {{''0''}, {''1''}}" by code_simp
  have c: "card (groups oracle4 {''0'', ''1''} ''b'') = 2" by code_simp
  have "cost_rel (it, oracle4, {''0''}) (it, oracle4, {''0'', ''1''})"
  proof (rule cost_rel_group)
    show "lookups_ok oracle4 {''0'', ''1''}" by (simp add: lookups4)
    show "finite {''0'', ''1''}" by simp
    show "''b'' \<in> set (attributes oracle4)" by (simp add: attributes4)
    show "\<not> card {''0'', ''1''} \<le> 1" by simp
    show "\<not> card (groups oracle4 {''0'', ''1''} ''b'') \<le> 1" by (simp add: c)
    show "{''0''} \<in> groups oracle4 {''0'', ''1''} ''b''" by (simp add: g)
  qed
  then show ?thesis by simp
qed

theorem cost_recursion_bounded_witness:
  "\<forall>it.
     KaryOracle_init table4 = Inr oracle4 \<and> uniform_table table4 \<and>
      cost_rel (it, oracle4, set [''0'', ''1'']) (it, oracle4, set (object_ids oracle4)) \<and>
      card (set [''0'', ''1''] :: string set) < card (set (object_ids oracle4)) \<and>
      call_chain it oracle4 [set (object_ids oracle4), set [''0'', ''1''], set [''0'']] \<and>
      length [set [''0'', ''1''], set [''0''] :: string set] \<le> length (attributes oracle4)"
  (is "\<forall>it. ?P it")
proof (intro allI)
  fix it :: iteration
  have sub: "set (object_ids oracle4) \<subseteq> set (object_ids oracle4)" by (rule subset_refl)
  have chain: "call_chain it oracle4 [set (object_ids oracle4), set [''0'', ''1''], set [''0'']]"
    using call4_1 call4_2 by (simp only: call_chain.simps simp_thms)
  note th = cost_recursion_bounded[OF init_table4 uniform_table4 sub]
  from th call4_1 have "card (set [''0'', ''1''] :: string set) < card (set (object_ids oracle4))"
    by blast
  moreover from th chain
  have "length [set [''0'', ''1''], set [''0''] :: string set] \<le> length (attributes oracle4)"
    by blast
  ultimately show "?P it" using init_table4 uniform_table4 call4_1 chain by blast
qed

end
